theory Spec2Isabelle
  imports Main
begin

section \<open>The spreadsheet store\<close>

text \<open>
  The backend keeps its data in the sheets of one spreadsheet document. The host's sheet
  is modelled as a grid: a number of rows and columns and one cell per coordinate
  (1-based, as the host counts them). A cell has the value that \<open>getValues\<close> returns
  and the text that \<open>getDisplayValues\<close> returns; the two differ for cells that a formula
  or a format of the sheet fills, and agree for a cell that the backend writes. A value
  is a string, a number or a boolean: every value the backend writes is a string, but a
  cell filled by hand may hold a number or a boolean, which \<open>getValues\<close> returns as such.
  Numbers are the integers here, of a size that \<open>String\<close> writes as a plain decimal
  numeral; numbers with a fraction and dates are not modelled. Strings are lists of code
  units below 256.
  A write past the last row or column of the grid makes the grid grow, and the cells
  that come into the grid are blank.
\<close>

datatype jsval = Str string | Num int | Bool bool
  \<comment> \<open>a value that \<open>getValues\<close> returns for a cell\<close>

record cell =
  cval :: jsval
  cdisp :: string

definition blank :: cell where
  \<comment> \<open>an empty cell: its value is the empty string\<close>
  "blank = \<lparr>cval = Str [], cdisp = []\<rparr>"

definition textCell :: "string \<Rightarrow> cell" where
  \<comment> \<open>the cell left by \<open>setValue(v)\<close> for a string \<open>v\<close>\<close>
  "textCell v = \<lparr>cval = Str v, cdisp = v\<rparr>"

record sheet =
  maxRows :: nat
  maxCols :: nat
  cells :: "nat \<times> nat \<Rightarrow> cell"

definition inGrid :: "sheet \<Rightarrow> nat \<times> nat \<Rightarrow> bool" where
  "inGrid sh p = (1 \<le> fst p \<and> fst p \<le> maxRows sh \<and> 1 \<le> snd p \<and> snd p \<le> maxCols sh)"

definition cellAt :: "sheet \<Rightarrow> nat \<times> nat \<Rightarrow> cell" where
  \<comment> \<open>the cell at a coordinate; there is nothing outside the grid\<close>
  "cellAt sh p = (if inGrid sh p then cells sh p else blank)"

definition setValue :: "sheet \<Rightarrow> nat \<Rightarrow> nat \<Rightarrow> string \<Rightarrow> sheet" where
  \<comment> \<open>\<open>sh.getRange(r, c).setValue(v)\<close>; a write past the last row or column grows the grid\<close>
  "setValue sh r c v =
     \<lparr>maxRows = max (maxRows sh) r, maxCols = max (maxCols sh) c,
      cells = (cellAt sh)((r, c) := textCell v)\<rparr>"

fun setRowValues :: "sheet \<Rightarrow> nat \<Rightarrow> nat \<Rightarrow> string list \<Rightarrow> sheet" where
  \<comment> \<open>\<open>sh.getRange(r, c, 1, vs.length).setValues([vs])\<close>\<close>
  "setRowValues sh r c [] = sh"
| "setRowValues sh r c (v # vs) = setRowValues (setValue sh r c v) r (Suc c) vs"

definition insertColumnsAfter :: "sheet \<Rightarrow> nat \<Rightarrow> nat \<Rightarrow> sheet" where
  \<comment> \<open>\<open>sh.insertColumnsAfter(k, n)\<close>: \<open>n\<close> blank columns after column \<open>k\<close>; the columns
      to the right move right\<close>
  "insertColumnsAfter sh k n =
     \<lparr>maxRows = maxRows sh, maxCols = maxCols sh + n,
      cells = (\<lambda>(r, c). if c \<le> k then cellAt sh (r, c)
                         else if c \<le> k + n then blank
                         else cellAt sh (r, c - n))\<rparr>"

definition colHasContent :: "sheet \<Rightarrow> nat \<Rightarrow> bool" where
  "colHasContent sh c = list_ex (\<lambda>r. cellAt sh (r, c) \<noteq> blank) [1..<Suc (maxRows sh)]"

definition rowHasContent :: "sheet \<Rightarrow> nat \<Rightarrow> bool" where
  "rowHasContent sh r = list_ex (\<lambda>c. cellAt sh (r, c) \<noteq> blank) [1..<Suc (maxCols sh)]"

definition lastWhere :: "(nat \<Rightarrow> bool) \<Rightarrow> nat \<Rightarrow> nat" where
  \<comment> \<open>the greatest index in \<open>1..n\<close> that satisfies \<open>P\<close>, 0 when there is none\<close>
  "lastWhere P n = (case filter P (rev [1..<Suc n]) of [] \<Rightarrow> 0 | i # _ \<Rightarrow> i)"

definition getLastColumn :: "sheet \<Rightarrow> nat" where
  \<comment> \<open>\<open>sh.getLastColumn()\<close>: the position of the last column that has content\<close>
  "getLastColumn sh = lastWhere (colHasContent sh) (maxCols sh)"

definition getLastRow :: "sheet \<Rightarrow> nat" where
  \<comment> \<open>\<open>sh.getLastRow()\<close>: the position of the last row that has content\<close>
  "getLastRow sh = lastWhere (rowHasContent sh) (maxRows sh)"

definition getValues :: "sheet \<Rightarrow> nat \<Rightarrow> nat \<Rightarrow> nat \<Rightarrow> nat \<Rightarrow> jsval list list" where
  \<comment> \<open>\<open>sh.getRange(r, c, numRows, numCols).getValues()\<close>\<close>
  "getValues sh r c numRows numCols =
     map (\<lambda>i. map (\<lambda>j. cval (cellAt sh (i, j))) [c..<c + numCols]) [r..<r + numRows]"

definition getDisplayValues :: "sheet \<Rightarrow> nat \<Rightarrow> nat \<Rightarrow> nat \<Rightarrow> nat \<Rightarrow> string list list" where
  \<comment> \<open>\<open>sh.getRange(r, c, numRows, numCols).getDisplayValues()\<close>\<close>
  "getDisplayValues sh r c numRows numCols =
     map (\<lambda>i. map (\<lambda>j. cdisp (cellAt sh (i, j))) [c..<c + numCols]) [r..<r + numRows]"

section \<open>Errors and JavaScript helpers\<close>

datatype error = Error string
  \<comment> \<open>\<open>throw new Error(message)\<close>\<close>

fun indexOf :: "'a list \<Rightarrow> 'a \<Rightarrow> nat option" where
  \<comment> \<open>\<open>xs.indexOf(x)\<close>, 0-based; \<open>None\<close> is the source's \<open>-1\<close>\<close>
  "indexOf [] x = None"
| "indexOf (y # ys) x = (if y = x then Some 0 else map_option Suc (indexOf ys x))"

definition orEmpty :: "string option \<Rightarrow> string" where
  \<comment> \<open>\<open>x || ''\<close> for an optional string \<open>x\<close> (\<open>None\<close> is \<open>undefined\<close>)\<close>
  "orEmpty x = (case x of None \<Rightarrow> [] | Some s \<Rightarrow> s)"

definition isSpace :: "char \<Rightarrow> bool" where
  \<comment> \<open>the white space and line terminators that \<open>trim\<close> removes, among the code units below 256\<close>
  "isSpace c = (c \<in> set [CHR 0x09, CHR 0x0A, CHR 0x0B, CHR 0x0C, CHR 0x0D, CHR 0x20, CHR 0xA0])"

definition trim :: "string \<Rightarrow> string" where
  \<comment> \<open>\<open>s.trim()\<close>\<close>
  "trim s = rev (dropWhile isSpace (rev (dropWhile isSpace s)))"

definition lowerChar :: "char \<Rightarrow> char" where
  "lowerChar c =
     (let n = (of_char c :: nat)
      in if (65 \<le> n \<and> n \<le> 90) \<or> (192 \<le> n \<and> n \<le> 222 \<and> n \<noteq> 215)
         then char_of (n + 32) else c)"

definition toLowerCase :: "string \<Rightarrow> string" where
  \<comment> \<open>\<open>s.toLowerCase()\<close>\<close>
  "toLowerCase s = map lowerChar s"

definition upperChar :: "char \<Rightarrow> char" where
  "upperChar c =
     (let n = (of_char c :: nat)
      in if (97 \<le> n \<and> n \<le> 122) \<or> (224 \<le> n \<and> n \<le> 254 \<and> n \<noteq> 247)
         then char_of (n - 32) else c)"

definition toUpperCase :: "string \<Rightarrow> string" where
  \<comment> \<open>\<open>s.toUpperCase()\<close>, used on \<open>true\<close> and \<open>false\<close> only\<close>
  "toUpperCase s = map upperChar s"

definition canonicalize :: "char \<Rightarrow> char" where
  \<comment> \<open>the case folding of a regular expression with the \<open>i\<close> flag: the upper case where
      it is one code unit. The two code units below 256 whose upper case lies above 255
      are left as they are, which identifies the same pairs.\<close>
  "canonicalize c = upperChar c"

fun matchesAt :: "string \<Rightarrow> string \<Rightarrow> bool" where
  \<comment> \<open>a pattern of literal characters matches at the start of the input, ignoring case\<close>
  "matchesAt [] s = True"
| "matchesAt (p # ps) [] = False"
| "matchesAt (p # ps) (c # cs) = (canonicalize p = canonicalize c \<and> matchesAt ps cs)"

fun testLiteralI :: "string \<Rightarrow> string \<Rightarrow> bool" where
  \<comment> \<open>\<open>/pat/i.test(s)\<close> for a pattern of literal characters: a match at some position\<close>
  "testLiteralI pat [] = matchesAt pat []"
| "testLiteralI pat (c # cs) = (matchesAt pat (c # cs) \<or> testLiteralI pat cs)"

definition digitChar :: "nat \<Rightarrow> char" where
  "digitChar d = ''0123456789'' ! d"

fun decimal :: "nat \<Rightarrow> string" where
  \<comment> \<open>\<open>String(n)\<close> for a count \<open>n\<close>\<close>
  "decimal n = (if n < 10 then [digitChar n] else decimal (n div 10) @ [digitChar (n mod 10)])"

declare decimal.simps [simp del]

fun truthy :: "jsval \<Rightarrow> bool" where
  \<comment> \<open>the values that count as true in \<open>v || ...\<close>\<close>
  "truthy (Str s) = (s \<noteq> [])"
| "truthy (Num n) = (n \<noteq> 0)"
| "truthy (Bool b) = b"

fun toStr :: "jsval \<Rightarrow> string" where
  \<comment> \<open>\<open>String(v)\<close>, which is also the property name that \<open>obj[v]\<close> uses\<close>
  "toStr (Str s) = s"
| "toStr (Num n) = (if n < 0 then ''-'' @ decimal (nat (- n)) else decimal (nat n))"
| "toStr (Bool b) = (if b then ''true'' else ''false'')"

fun orBlank :: "jsval option \<Rightarrow> jsval" where
  \<comment> \<open>\<open>v || ''\<close> for a value \<open>v\<close> that may be \<open>undefined\<close>\<close>
  "orBlank None = Str []"
| "orBlank (Some v) = (if truthy v then v else Str [])"

definition padStart :: "string \<Rightarrow> nat \<Rightarrow> char \<Rightarrow> string" where
  \<comment> \<open>\<open>s.padStart(len, fill)\<close> with a fill of one character\<close>
  "padStart s len fill = replicate (len - length s) fill @ s"

fun joinWith :: "string \<Rightarrow> string list \<Rightarrow> string" where
  \<comment> \<open>\<open>xs.join(sep)\<close>\<close>
  "joinWith sep [] = []"
| "joinWith sep [x] = x"
| "joinWith sep (x # y # ys) = x @ sep @ joinWith sep (y # ys)"

definition matchDataUrl :: "string \<Rightarrow> (string \<times> string) option" where
  \<comment> \<open>\<open>s.match(/^data:(image\/[^;]+);base64,(.+)$/)\<close>: the two groups of the match. The
      first group stops at the first semicolon, since \<open>[^;]+\<close> takes none and a semicolon
      must follow it; the dot of the second group takes no line terminator.\<close>
  "matchDataUrl s =
     (if take 11 s = ''data:image/'' then
        (let rest = drop 11 s;
             sub = takeWhile (\<lambda>c. c \<noteq> CHR '';'') rest;
             rest2 = drop (length sub) rest
         in if sub \<noteq> [] \<and> take 8 rest2 = '';base64,'' then
              (let content = drop 8 rest2
               in if content \<noteq> [] \<and> list_all (\<lambda>c. c \<noteq> CHR 0x0A \<and> c \<noteq> CHR 0x0D) content
                  then Some (''image/'' @ sub, content) else None)
            else None)
      else None)"

section \<open>The document, its properties and the host\<close>

text \<open>
  The document is a map from sheet names to sheets; the script properties are a map from
  keys to strings. The services of the host that the backend calls and that this file
  does not compute are parameters: the size of a sheet that \<open>insertSheet\<close> creates, the
  identifiers that \<open>Utilities.getUuid\<close> hands out, the formatted clock, the base64
  decoder and the file store. The identifiers, the clock and the file store may answer
  differently at each call, so their calls are numbered by a counter kept in the state;
  \<open>None\<close> from the decoder or the file store is a call that throws. The operations on
  sheets and properties themselves are taken to succeed. A function that can throw
  returns the exception or its result with the new state; the state that a throwing call
  leaves behind is not followed further.
\<close>

record world =
  sheets :: "string \<rightharpoonup> sheet"
  props :: "string \<rightharpoonup> string"
  tick :: nat

record host =
  newRows :: nat
  newCols :: nat
  getUuid :: "nat \<Rightarrow> string"
  formatDate :: "nat \<Rightarrow> string \<Rightarrow> string"
  base64Decode :: "string \<Rightarrow> nat list option"
  folderExists :: "string \<Rightarrow> bool"
  createFile :: "nat \<Rightarrow> string \<Rightarrow> string \<Rightarrow> string \<Rightarrow> nat list \<Rightarrow> string option"

definition insertSheet :: "host \<Rightarrow> sheet" where
  \<comment> \<open>the sheet that \<open>ss.insertSheet(name)\<close> creates\<close>
  "insertSheet h = \<lparr>maxRows = newRows h, maxCols = newCols h, cells = (\<lambda>_. blank)\<rparr>"

definition nextUuid :: "host \<Rightarrow> world \<Rightarrow> string \<times> world" where
  \<comment> \<open>\<open>Utilities.getUuid()\<close>\<close>
  "nextUuid h w = (getUuid h (tick w), w\<lparr>tick := Suc (tick w)\<rparr>)"

definition formatNow :: "host \<Rightarrow> world \<Rightarrow> string \<Rightarrow> string \<times> world" where
  \<comment> \<open>\<open>Utilities.formatDate(new Date(), TZ, pattern)\<close>\<close>
  "formatNow h w pattern = (formatDate h (tick w) pattern, w\<lparr>tick := Suc (tick w)\<rparr>)"

definition SH_BATCHES :: string where "SH_BATCHES = ''Batches''"
definition SH_ITEMS :: string where "SH_ITEMS = ''Items''"
definition SH_SELECT :: string where "SH_SELECT = ''Selections''"
definition SH_PHOTOS :: string where "SH_PHOTOS = ''Photos''"

definition HEADERS :: "string \<Rightarrow> string list" where
  "HEADERS name =
     (if name = SH_BATCHES then [''BatchID'', ''Client'', ''StartDate'', ''Assessor'', ''Status'']
      else if name = SH_ITEMS then
        [''ItemID'', ''BatchID'', ''Code'', ''PerilType'', ''ImpactLevel'', ''Type'', ''Title'',
         ''Artist'', ''Material'', ''Date'', ''Dimensions'', ''Features'',
         ''HistoricIssuesPresent'', ''HistoricCode'', ''HistoricNotes'',
         ''TreatmentTimeMinutes'', ''TreatmentTimeUnit'', ''TreatmentTime'',
         ''AdditionalNotes'', ''OtherNotes'', ''Notes'', ''CreatedAt'']
      else if name = SH_SELECT then
        [''SelectionID'', ''ItemID'', ''OptionCode'', ''Severity'', ''ExtentPercent'', ''Location'',
         ''ItemType'', ''UseSeverity'', ''SeverityWord'', ''BasePhrase'', ''IsLocalized'',
         ''LocPart'', ''ExtPart'', ''CondLine'',
         ''GlobalFrag'', ''LocalText'', ''LocalWhere'',
         ''NeedsReplacement'', ''NeedsReupholstery'']
      else if name = SH_PHOTOS then
        [''PhotoID'', ''ItemID'', ''Image'', ''Caption'', ''TakenAt'', ''Lat'', ''Lng'', ''Uploader'']
      else [])"

section \<open>Sheet helpers of the backend\<close>

definition getHeaders :: "sheet \<Rightarrow> jsval list" where
  "getHeaders sh =
     (let lastCol = max 1 (getLastColumn sh)
      in hd (getValues sh 1 1 1 lastCol))"

fun scanUp :: "string list list \<Rightarrow> nat \<Rightarrow> nat" where
  \<comment> \<open>the loop of \<open>nextFreeRowByHeader_\<close>; the second argument is \<open>i + 1\<close>\<close>
  "scanUp colVals 0 = 2"
| "scanUp colVals (Suc i) =
     (if hd (colVals ! i) \<noteq> [] then i + 2 + 1 else scanUp colVals i)"

definition nextFreeRowByHeader :: "sheet \<Rightarrow> string \<Rightarrow> error + nat" where
  "nextFreeRowByHeader sh keyHeader =
     (let headers = getHeaders sh in
      case indexOf headers (Str keyHeader) of
        None \<Rightarrow> Inl (Error (''Key header not found: '' @ keyHeader))
      | Some idx \<Rightarrow>
          (let col = idx + 1;
               totalRows = maxRows sh - 1
           in if totalRows = 0 then Inr 2
              else (let colVals = getDisplayValues sh 2 col totalRows 1
                    in Inr (scanUp colVals (length colVals)))))"

definition ensureSheet :: "host \<Rightarrow> world \<Rightarrow> string \<Rightarrow> string list \<Rightarrow> world" where
  \<comment> \<open>\<open>ensureSheet_(name, header)\<close>; the sheet it returns is the one stored under \<open>name\<close>\<close>
  "ensureSheet h w name header =
     (case sheets w name of
        None \<Rightarrow>
          (let sh = insertSheet h;
               sh' = (if header \<noteq> [] then setRowValues sh 1 1 header else sh)
           in w\<lparr>sheets := (sheets w)(name \<mapsto> sh')\<rparr>)
      | Some sh \<Rightarrow>
          if header \<noteq> [] then
            (let current = getHeaders sh;
                 missing = filter (\<lambda>h. indexOf current (Str h) = None) header
             in if missing \<noteq> [] then
                  (let sh1 = insertColumnsAfter sh (length current) (length missing);
                       sh2 = setRowValues sh1 1 (length current + 1) missing
                   in w\<lparr>sheets := (sheets w)(name \<mapsto> sh2)\<rparr>)
                else w)
          else w)"

type_synonym jsrecord = "(string \<times> string) list"
  \<comment> \<open>an object with string values: its keys, in the order of \<open>Object.keys\<close>, and their values\<close>

definition writeRecord :: "sheet \<Rightarrow> jsval list \<Rightarrow> nat \<Rightarrow> jsrecord \<Rightarrow> sheet" where
  \<comment> \<open>the \<open>forEach\<close> of \<open>appendRowAtKey_\<close>: one \<open>setValue\<close> for each key found in the headers\<close>
  "writeRecord sh headers r obj =
     fold (\<lambda>(h, v) s. case indexOf headers (Str h) of None \<Rightarrow> s
                      | Some col \<Rightarrow> setValue s r (col + 1) v)
       obj sh"

definition appendRowAtKey :: "world \<Rightarrow> string \<Rightarrow> string \<Rightarrow> jsrecord \<Rightarrow> error + world" where
  "appendRowAtKey w name keyHeader obj =
     (case sheets w name of
        None \<Rightarrow> Inl (Error (''Missing sheet: '' @ name))
      | Some sh \<Rightarrow>
          (let headers = getHeaders sh in
           case nextFreeRowByHeader sh keyHeader of
             Inl e \<Rightarrow> Inl e
           | Inr r \<Rightarrow> Inr (w\<lparr>sheets := (sheets w)(name \<mapsto> writeRecord sh headers r obj)\<rparr>)))"

definition getDataRangeValues :: "sheet \<Rightarrow> jsval list list" where
  \<comment> \<open>\<open>sh.getDataRange().getValues()\<close>: from the first cell to the last row and column
      that have content, one cell for an empty sheet\<close>
  "getDataRangeValues sh = getValues sh 1 1 (max 1 (getLastRow sh)) (max 1 (getLastColumn sh))"

type_synonym rowobj = "string \<rightharpoonup> jsval"
  \<comment> \<open>an object read from a row: property names to values\<close>

definition rowObject :: "jsval list \<Rightarrow> jsval list \<Rightarrow> rowobj" where
  \<comment> \<open>\<open>head.forEach((key, i) => { obj[key] = row[i]; })\<close>; a row is as long as the head,
      and the property name of a key is its string\<close>
  "rowObject head row =
     fold (\<lambda>i obj. obj(toStr (head ! i) \<mapsto> row ! i)) [0..<length head] Map.empty"

definition getAll :: "world \<Rightarrow> string \<Rightarrow> rowobj list" where
  "getAll w name =
     (case sheets w name of
        None \<Rightarrow> []
      | Some sh \<Rightarrow>
          (let v = getDataRangeValues sh
           in if length v \<le> 1 then []
              else (let head = hd v in map (rowObject head) (tl v))))"

definition nextCodeForBatch :: "world \<Rightarrow> string \<Rightarrow> string" where
  "nextCodeForBatch w batchId =
     (let items = filter (\<lambda>r. r ''BatchID'' = Some (Str batchId)) (getAll w SH_ITEMS);
          n = length items + 1
      in ''I'' @ padStart (decimal n) 3 CHR ''0'')"

section \<open>Notes\<close>

record selection =
  sel_code :: "string option"
  sel_note :: "string option"
  sel_location :: "string option"
  sel_extent :: "string option"
  sel_localized :: bool

record payload =
  p_batchId :: "string option"
  p_peril :: "string option"
  p_impact :: "string option"
  p_type :: "string option"
  p_title :: "string option"
  p_artist :: "string option"
  p_material :: "string option"
  p_date :: "string option"
  p_dimensions :: "string option"
  p_features :: "string option"
  p_historicYes :: bool
  p_historicCode :: "string option"
  p_historicNotes :: "string option"
  p_TreatmentTimeMinutes :: "string option"
  p_TreatmentTimeUnit :: "string option"
  p_TreatmentTime :: "string option"
  p_incidentNotes :: "string option"
  p_otherNotes :: "string option"
  p_selections :: "selection list"

definition HISTORIC_1 :: string where
  "HISTORIC_1 = ''Historic issues, including age, wear and use issues will not be addressed as part of the claim''"

definition HISTORIC_2 :: string where
  "HISTORIC_2 = ''Historic issues can be addressed outside the claim on a private client basis should this be of interest to the client.''"

definition MINOR_DIFFERENCE :: string where
  "MINOR_DIFFERENCE = ''Some minor visible difference may remain in impacted area following treatment''"

definition INSTABILITY :: string where
  "INSTABILITY = ''Underlying material instability will remain following treatment''"

definition FLATTENING :: string where
  "FLATTENING = ''Given the materials we may face limitation in flattening the artwork, we will take this to a safe level''"

definition structural :: "string list" where
  "structural =
     [''STRUCT_DAMAGED'', ''JOINTS_LOOSE'', ''VENEER_LIFTING'', ''VENEER_LOSS'',
      ''PNT_LIFTING'', ''PNT_LOSS'', ''PNT_TEAR'', ''WOP_MEDIA_LOSS'', ''WOP_HINGE_FAIL'',
      ''FRM_STRUCT'', ''GILT_ORNAMENT_CRACK'', ''OBJ_CORROSION'', ''OBJ_OXIDATION'',
      ''CERAMIC_CRACK'', ''CERAMIC_CHIP'', ''CERAMIC_BREAK'', ''TXT_TEAR'',
      ''UPH_FABRIC_DAMAGE'', ''RUG_COLOUR_RUN'']"

definition flattening :: "string list" where
  "flattening = [''WOP_COCKLING'', ''PNT_DEFORMATION'']"

definition noteLines :: "payload \<Rightarrow> string list" where
  \<comment> \<open>the array \<open>out\<close> of \<open>buildNotes_\<close> before it is joined; \<open>codes\<close> is the \<open>Set\<close> of the
      selections' codes, a selection without a code giving the member \<open>undefined\<close>\<close>
  "noteLines p =
     (let codes = remdups (map sel_code (p_selections p));
          out0 = [];
          out1 = (if p_historicYes p then out0 @ [HISTORIC_1] @ [HISTORIC_2] else out0);
          out2 = (if length codes \<noteq> 0 then out1 @ [MINOR_DIFFERENCE] else out1);
          out3 = (if list_ex (\<lambda>c. Some c \<in> set codes) structural then out2 @ [INSTABILITY] else out2);
          out4 = (if list_ex (\<lambda>c. Some c \<in> set codes) flattening then out3 @ [FLATTENING] else out3)
      in out4)"

definition buildNotes :: "payload \<Rightarrow> string" where
  \<comment> \<open>the separator is the source's literal: a backslash and the letter n\<close>
  "buildNotes p = joinWith [CHR 0x5C, CHR ''n''] (noteLines p)"

definition nthOpt :: "'a list \<Rightarrow> nat \<Rightarrow> 'a option" where
  \<comment> \<open>\<open>xs[i]\<close>, \<open>undefined\<close> past the end\<close>
  "nthOpt xs i = (if i < length xs then Some (xs ! i) else None)"

fun notesScan :: "jsval list list \<Rightarrow> string \<Rightarrow> string" where
  \<comment> \<open>the loop of \<open>getNoteFromNotesRules_\<close> over the rows \<open>v[1]\<close>, \<open>v[2]\<close>, ...; \<open>a\<close> and \<open>b\<close>
      are \<open>String(v[i][0] || '').trim()\<close> and \<open>String(v[i][1] || '').trim()\<close>\<close>
  "notesScan [] code = []"
| "notesScan (row # rows) code =
     (let a = trim (toStr (orBlank (nthOpt row 0)));
          b = trim (toStr (orBlank (nthOpt row 1)))
      in if a = [] then notesScan rows code
         else if toLowerCase a = toLowerCase code then b
         else notesScan rows code)"

definition getNoteFromNotesRules :: "world \<Rightarrow> string \<Rightarrow> string" where
  "getNoteFromNotesRules w code0 =
     (let code = trim code0 in
      if code = [] then []
      else case sheets w ''NotesRules'' of
             None \<Rightarrow> []
           | Some sh \<Rightarrow>
               (let v = getDataRangeValues sh
                in if length v < 2 then [] else notesScan (drop 1 v) code))"

section \<open>Saving an item\<close>

definition boolString :: "bool \<Rightarrow> string" where
  \<comment> \<open>\<open>String(b).toUpperCase()\<close>\<close>
  "boolString b = toUpperCase (if b then ''true'' else ''false'')"

definition itemRow :: "world \<Rightarrow> string \<Rightarrow> string \<Rightarrow> string \<Rightarrow> payload \<Rightarrow> jsrecord" where
  \<comment> \<open>the object that \<open>saveItem\<close> writes to the Items sheet\<close>
  "itemRow w itemId code createdAt p =
     [(''ItemID'', itemId),
      (''BatchID'', orEmpty (p_batchId p)),
      (''Code'', code),
      (''PerilType'', orEmpty (p_peril p)),
      (''ImpactLevel'', orEmpty (p_impact p)),
      (''Type'', orEmpty (p_type p)),
      (''Title'', orEmpty (p_title p)),
      (''Artist'', orEmpty (p_artist p)),
      (''Material'', orEmpty (p_material p)),
      (''Date'', orEmpty (p_date p)),
      (''Dimensions'', orEmpty (p_dimensions p)),
      (''Features'', orEmpty (p_features p)),
      (''HistoricIssuesPresent'', boolString (p_historicYes p)),
      (''HistoricCode'', toLowerCase (orEmpty (p_historicCode p))),
      (''HistoricNotes'', orEmpty (p_historicNotes p)),
      (''TreatmentTimeMinutes'', orEmpty (p_TreatmentTimeMinutes p)),
      (''TreatmentTimeUnit'', orEmpty (p_TreatmentTimeUnit p)),
      (''TreatmentTime'', orEmpty (p_TreatmentTime p)),
      (''AdditionalNotes'', orEmpty (p_incidentNotes p)),
      (''OtherNotes'', orEmpty (p_otherNotes p)),
      (''CreatedAt'', createdAt),
      (''Notes'', getNoteFromNotesRules w (orEmpty (p_historicCode p)))]"

definition selectionRow :: "string \<Rightarrow> string \<Rightarrow> payload \<Rightarrow> selection \<Rightarrow> jsrecord" where
  \<comment> \<open>the object that \<open>saveItem\<close> writes to the Selections sheet for the selection \<open>s\<close>\<close>
  "selectionRow uuid itemId p s =
     (let isLocal = sel_localized s;
          note = orEmpty (sel_note s);
          needsRepl = testLiteralI ''Replacement needed'' note;
          needsReuph = testLiteralI ''Reupholstery needed'' note
      in [(''SelectionID'', ''SEL-'' @ take 8 uuid),
          (''ItemID'', itemId),
          (''OptionCode'', orEmpty (sel_code s)),
          (''Severity'', []),
          (''ExtentPercent'', orEmpty (sel_extent s)),
          (''Location'', orEmpty (sel_location s)),
          (''ItemType'', orEmpty (p_type p)),
          (''UseSeverity'', []),
          (''SeverityWord'', []),
          (''BasePhrase'', []),
          (''IsLocalized'', boolString isLocal),
          (''LocPart'', []),
          (''ExtPart'', []),
          (''CondLine'', []),
          (''GlobalFrag'', if isLocal then [] else note),
          (''LocalText'', if isLocal then note else []),
          (''LocalWhere'', orEmpty (sel_location s)),
          (''NeedsReplacement'', if needsRepl then ''TRUE'' else ''FALSE''),
          (''NeedsReupholstery'', if needsReuph then ''TRUE'' else ''FALSE'')])"

fun saveSelections :: "host \<Rightarrow> world \<Rightarrow> string \<Rightarrow> payload \<Rightarrow> selection list \<Rightarrow> error + world" where
  \<comment> \<open>the \<open>forEach\<close> over the selections; an exception ends it\<close>
  "saveSelections h w itemId p [] = Inr w"
| "saveSelections h w itemId p (s # ss) =
     (let (uuid, w1) = nextUuid h w in
      case appendRowAtKey w1 SH_SELECT ''SelectionID'' (selectionRow uuid itemId p s) of
        Inl e \<Rightarrow> Inl e
      | Inr w2 \<Rightarrow> saveSelections h w2 itemId p ss)"

definition saveItem :: "host \<Rightarrow> world \<Rightarrow> payload \<Rightarrow> error + world \<times> string \<times> string" where
  \<comment> \<open>\<open>saveItem(payload)\<close>: the new state with \<open>itemId\<close> and \<open>code\<close>, or the exception that
      is logged and thrown again\<close>
  "saveItem h w p =
     (if orEmpty (p_batchId p) = [] then Inl (Error ''Missing batchId'')
      else
        (let w1 = ensureSheet h w SH_ITEMS (HEADERS SH_ITEMS);
             w2 = ensureSheet h w1 SH_SELECT (HEADERS SH_SELECT);
             (uuid, w3) = nextUuid h w2;
             itemId = ''ITM-'' @ take 8 uuid;
             code = nextCodeForBatch w3 (orEmpty (p_batchId p));
             (createdAt, w4) = formatNow h w3 ''yyyy-MM-dd HH:mm:ss'';
             notesAuto = buildNotes p
         in case appendRowAtKey w4 SH_ITEMS ''ItemID'' (itemRow w4 itemId code createdAt p) of
              Inl e \<Rightarrow> Inl e
            | Inr w5 \<Rightarrow>
                (case saveSelections h w5 itemId p (p_selections p) of
                   Inl e \<Rightarrow> Inl e
                 | Inr w6 \<Rightarrow> Inr (w6, itemId, code))))"

section \<open>Saving photos\<close>

record photo =
  dataUrl :: "string option"

definition photoStep ::
  "host \<Rightarrow> string \<Rightarrow> string \<Rightarrow> string \<Rightarrow> world \<times> nat \<Rightarrow> photo \<Rightarrow> nat \<Rightarrow> world \<times> nat" where
  \<comment> \<open>the body of the \<open>forEach\<close> of \<open>savePhotosDataUrls\<close> for the entry \<open>p\<close> at index \<open>idx\<close>,
      on the state and the count \<open>saved\<close>; every exception is caught and the entry left\<close>
  "photoStep h folderId itemId when st p idx =
     (let (w, saved) = st in
      case matchDataUrl (orEmpty (dataUrl p)) of
        None \<Rightarrow> (w, saved)
      | Some (contentType, b64) \<Rightarrow>
          (case base64Decode h b64 of
             None \<Rightarrow> (w, saved)
           | Some bytes \<Rightarrow>
               (let ext = (if contentType = ''image/png'' then ''png'' else ''jpg'');
                    name = itemId @ ''-'' @ when @ ''-'' @ padStart (decimal (idx + 1)) 2 CHR ''0''
                             @ ''.'' @ ext;
                    w1 = w\<lparr>tick := Suc (tick w)\<rparr>
                in case createFile h (tick w) folderId name contentType bytes of
                     None \<Rightarrow> (w1, saved)
                   | Some fileId \<Rightarrow>
                       (let (uuid, w2) = nextUuid h w1;
                            (takenAt, w3) = formatNow h w2 ''yyyy-MM-dd HH:mm:ss''
                        in case appendRowAtKey w3 SH_PHOTOS ''PhotoID''
                                  [(''PhotoID'', uuid),
                                   (''ItemID'', itemId),
                                   (''Image'', fileId),
                                   (''Caption'', []),
                                   (''TakenAt'', takenAt),
                                   (''Lat'', []),
                                   (''Lng'', []),
                                   (''Uploader'', [])] of
                             Inl e \<Rightarrow> (w3, saved)
                           | Inr w4 \<Rightarrow> (w4, saved + 1)))))"

fun photosLoop ::
  "host \<Rightarrow> string \<Rightarrow> string \<Rightarrow> string \<Rightarrow> world \<times> nat \<Rightarrow> photo list \<Rightarrow> nat \<Rightarrow> world \<times> nat" where
  \<comment> \<open>\<open>photos.forEach((p, idx) => ...)\<close> from the index \<open>idx\<close> on\<close>
  "photosLoop h folderId itemId when st [] idx = st"
| "photosLoop h folderId itemId when st (p # ps) idx =
     photosLoop h folderId itemId when (photoStep h folderId itemId when st p idx) ps (Suc idx)"

definition savePhotosDataUrls ::
  "host \<Rightarrow> world \<Rightarrow> string \<Rightarrow> string \<Rightarrow> photo list \<Rightarrow> error + world \<times> nat" where
  \<comment> \<open>\<open>savePhotosDataUrls(batchId, itemId, photos)\<close>: the new state and \<open>saved\<close>, or the
      exception thrown; the exception of \<open>DriveApp.getFolderById\<close> is the host's, and its
      message here stands for whatever the host says\<close>
  "savePhotosDataUrls h w batchId itemId photos =
     (if batchId = [] \<or> itemId = [] then Inl (Error ''Missing batchId or itemId'')
      else if photos = [] then Inr (w, 0)
      else
        (let w1 = ensureSheet h w SH_PHOTOS (HEADERS SH_PHOTOS) in
         case props w1 (''PHOTOS_'' @ batchId) of
           None \<Rightarrow> Inl (Error ''Photo folder not configured for this batch.'')
         | Some folderId \<Rightarrow>
             if folderId = [] then Inl (Error ''Photo folder not configured for this batch.'')
             else if \<not> folderExists h folderId
               then Inl (Error ''DriveApp.getFolderById: no folder with this id'')
             else
               (let (when, w2) = formatNow h w1 ''yyyyMMdd-HHmmss''
                in Inr (photosLoop h folderId itemId when (w2, 0) photos 0))))"

section \<open>Example states\<close>

definition exSheet :: sheet where
  \<comment> \<open>a sheet of five rows: two records, a blank row, and a stray cell in the last row\<close>
  "exSheet = \<lparr>maxRows = 5, maxCols = 3,
     cells = (\<lambda>_. blank)((1, 1) := textCell ''ID'', (1, 2) := textCell ''Name'',
        (2, 1) := textCell ''a'', (3, 1) := textCell ''b'', (5, 2) := textCell ''x'')\<rparr>"

definition exSelection :: "string \<Rightarrow> string option \<Rightarrow> selection" where
  "exSelection c n = \<lparr>sel_code = Some c, sel_note = n, sel_location = None, sel_extent = None,
     sel_localized = False\<rparr>"

definition exPayload :: "string \<Rightarrow> bool \<Rightarrow> selection list \<Rightarrow> payload" where
  "exPayload b hist sels = \<lparr>p_batchId = Some b, p_peril = None, p_impact = None, p_type = None,
     p_title = None, p_artist = None, p_material = None, p_date = None, p_dimensions = None,
     p_features = None, p_historicYes = hist, p_historicCode = None, p_historicNotes = None,
     p_TreatmentTimeMinutes = None, p_TreatmentTimeUnit = None, p_TreatmentTime = None,
     p_incidentNotes = None, p_otherNotes = None, p_selections = sels\<rparr>"

section \<open>Auxiliary definitions for the proofs\<close>

definition dataRow :: "sheet \<Rightarrow> nat \<Rightarrow> jsval list" where
  \<comment> \<open>the row \<open>r\<close> of the data range\<close>
  "dataRow sh r = map (\<lambda>j. cval (cellAt sh (r, j))) [1..<Suc (max 1 (getLastColumn sh))]"

definition textOrBlank :: "jsval \<Rightarrow> string" where
  \<comment> \<open>the text of a cell value for the notes lookup: the string of the value, except that
      an empty value, the number 0 and the boolean false count as blank\<close>
  "textOrBlank v = (if v = Str [] \<or> v = Num 0 \<or> v = Bool False then [] else toStr v)"

text \<open>The two sheets that \<open>ensureSheet_\<close> can leave under the name: the new one, and the
  existing one with the missing columns added.\<close>

definition freshSheet :: "host \<Rightarrow> string list \<Rightarrow> sheet" where
  "freshSheet h header = (if header \<noteq> [] then setRowValues (insertSheet h) 1 1 header else insertSheet h)"

definition missingOf :: "sheet \<Rightarrow> string list \<Rightarrow> string list" where
  "missingOf sh header = filter (\<lambda>h. Str h \<notin> set (getHeaders sh)) header"

definition grownSheet :: "sheet \<Rightarrow> string list \<Rightarrow> sheet" where
  "grownSheet sh header =
     (if missingOf sh header \<noteq> [] then
        setRowValues (insertColumnsAfter sh (length (getHeaders sh)) (length (missingOf sh header)))
          1 (length (getHeaders sh) + 1) (missingOf sh header)
      else sh)"

definition exItems :: sheet where
  \<comment> \<open>an Items sheet with two items, of the batches B1 and B2\<close>
  "exItems = \<lparr>maxRows = 4, maxCols = 3,
     cells = (\<lambda>_. blank)((1, 1) := textCell ''ItemID'', (1, 2) := textCell ''BatchID'',
        (1, 3) := textCell ''Code'',
        (2, 1) := textCell ''ITM-1'', (2, 2) := textCell ''B1'', (2, 3) := textCell ''I001'',
        (3, 1) := textCell ''ITM-2'', (3, 2) := textCell ''B2'', (3, 3) := textCell ''I001'')\<rparr>"

definition exRules :: sheet where
  \<comment> \<open>a NotesRules sheet in which the code h1 occurs twice, after a row without a code\<close>
  "exRules = \<lparr>maxRows = 6, maxCols = 2,
     cells = (\<lambda>_. blank)((1, 1) := textCell ''Code'', (1, 2) := textCell ''NoteText'',
        (2, 2) := textCell ''no code'',
        (3, 1) := textCell '' h1'', (3, 2) := textCell '' first note '',
        (4, 1) := textCell ''H1'', (4, 2) := textCell ''second note'',
        (5, 1) := textCell ''h2'', (5, 2) := textCell ''other'')\<rparr>"

definition cxRules :: sheet where
  \<comment> \<open>a NotesRules sheet with cells that hold numbers and a boolean\<close>
  "cxRules = \<lparr>maxRows = 4, maxCols = 2,
     cells = (\<lambda>_. blank)((1, 1) := textCell ''Code'', (1, 2) := textCell ''NoteText'',
        (2, 1) := \<lparr>cval = Num 0, cdisp = ''0''\<rparr>, (2, 2) := textCell ''zero note'',
        (3, 1) := textCell ''h1'', (3, 2) := \<lparr>cval = Bool False, cdisp = ''FALSE''\<rparr>,
        (4, 1) := \<lparr>cval = Num 12, cdisp = ''12''\<rparr>, (4, 2) := textCell ''twelve'')\<rparr>"

definition cxNotes :: world where
  "cxNotes = \<lparr>sheets = [''NotesRules'' \<mapsto> cxRules], props = Map.empty, tick = 0\<rparr>"

definition exStore :: world where
  "exStore = \<lparr>sheets = [''Items'' \<mapsto> exItems, ''NotesRules'' \<mapsto> exRules],
     props = Map.empty, tick = 0\<rparr>"

definition exRecord :: jsrecord where
  "exRecord = [(''Name'', ''Ada''), (''Colour'', ''red'')]"

definition exTable :: world where
  "exTable = \<lparr>sheets = [''T'' \<mapsto> exSheet], props = Map.empty, tick = 0\<rparr>"

definition ensured :: "host \<Rightarrow> world \<Rightarrow> string \<Rightarrow> string list \<Rightarrow> sheet" where
  \<comment> \<open>the sheet under the name after \<open>ensureSheet_\<close>\<close>
  "ensured h w name header =
     (case sheets w name of None \<Rightarrow> freshSheet h header
      | Some sh \<Rightarrow> if missingOf sh header \<noteq> [] then grownSheet sh header else sh)"

definition exHost :: host where
  "exHost = \<lparr>newRows = 3, newCols = 2,
     getUuid = (\<lambda>n. decimal n @ ''f3a9c1d2-0000''),
     formatDate = (\<lambda>n pattern. ''2024-05-06 07:08:09''),
     base64Decode = (\<lambda>s. if s = ''AAAA'' then Some [0, 0, 0] else None),
     folderExists = (\<lambda>f. f = ''folder-1''),
     createFile = (\<lambda>n folder name contentType bytes. Some (''file-'' @ decimal n))\<rparr>"

definition exWorld :: world where
  "exWorld = \<lparr>sheets = Map.empty, props = [''PHOTOS_B1'' \<mapsto> ''folder-1''], tick = 0\<rparr>"

definition exGood :: photo where
  "exGood = \<lparr>dataUrl = Some ''data:image/png;base64,AAAA''\<rparr>"

definition exBad :: photo where
  "exBad = \<lparr>dataUrl = Some ''not a data url''\<rparr>"

definition exUndecodable :: photo where
  "exUndecodable = \<lparr>dataUrl = Some ''data:image/jpeg;base64,????''\<rparr>"

definition exFullDrive :: host where
  \<comment> \<open>a host whose file store refuses every file\<close>
  "exFullDrive = exHost\<lparr>createFile := (\<lambda>n folder name contentType bytes. None)\<rparr>"

definition exFlagged :: payload where
  \<comment> \<open>a payload with two selections, the first with a note that asks for a replacement\<close>
  "exFlagged = exPayload ''B1'' False
     [exSelection ''UPH_FABRIC_DAMAGE'' (Some ''seat torn - REPLACEMENT NEEDED soon''),
      exSelection ''PNT_TEAR'' None]"

definition cxDupItems :: sheet where
  \<comment> \<open>an Items sheet without items whose header row reads BatchID in two columns\<close>
  "cxDupItems = \<lparr>maxRows = 1, maxCols = 3,
     cells = (\<lambda>_. blank)((1, 1) := textCell ''ItemID'', (1, 2) := textCell ''BatchID'',
        (1, 3) := textCell ''BatchID'')\<rparr>"

definition cxDup :: world where
  "cxDup = \<lparr>sheets = [''Items'' \<mapsto> cxDupItems], props = Map.empty, tick = 0\<rparr>"

subsection \<open>Batches and codes\<close>

text \<open>
  The notions that the statements about codes use, in the words of the specification: the
  rows of a batch, their number, a header row that names BatchID once, and the text of a
  code. The lemmas \<open>rowObject_inBatch\<close> and \<open>itemsOfBatch_getAll\<close> relate them to what
  \<open>getAll_\<close> and \<open>nextCodeForBatch_\<close> compute.
\<close>

definition inBatch :: "sheet \<Rightarrow> string \<Rightarrow> nat \<Rightarrow> bool" where
  \<comment> \<open>the row \<open>r\<close> has the batch identifier \<open>b\<close> as its BatchID: its value in the last
      column whose cell of the header row reads BatchID\<close>
  "inBatch sh b r \<longleftrightarrow>
     (\<exists>c. toStr (cval (cellAt sh (1, c))) = ''BatchID'' \<and>
          (\<forall>d. c < d \<longrightarrow> toStr (cval (cellAt sh (1, d))) \<noteq> ''BatchID'') \<and>
          cval (cellAt sh (r, c)) = Str b)"

definition itemsOfBatch :: "world \<Rightarrow> string \<Rightarrow> nat" where
  \<comment> \<open>the number of existing Items rows whose BatchID equals \<open>b\<close>: rows below the header,
      down to the last row with content; 0 without an Items sheet\<close>
  "itemsOfBatch w b =
     (case sheets w SH_ITEMS of
        None \<Rightarrow> 0
      | Some sh \<Rightarrow> card {r. 2 \<le> r \<and> r \<le> getLastRow sh \<and> inBatch sh b r})"

definition batchColumnUnique :: "sheet \<Rightarrow> bool" where
  \<comment> \<open>the header row reads BatchID in at most one column\<close>
  "batchColumnUnique sh \<longleftrightarrow>
     (\<forall>c d. toStr (cval (cellAt sh (1, c))) = ''BatchID'' \<and>
            toStr (cval (cellAt sh (1, d))) = ''BatchID'' \<longrightarrow> c = d)"

definition oneBatchColumn :: "world \<Rightarrow> bool" where
  "oneBatchColumn w \<longleftrightarrow> (\<forall>sh. sheets w SH_ITEMS = Some sh \<longrightarrow> batchColumnUnique sh)"

definition codeText :: "nat \<Rightarrow> string" where
  \<comment> \<open>the letter I and the number \<open>n\<close>, zero-padded to three digits\<close>
  "codeText n =
     ''I'' @ (if n < 1000 then [digitChar (n div 100), digitChar (n div 10 mod 10), digitChar (n mod 10)]
              else decimal n)"

section \<open>Properties of the helpers\<close>

lemma indexOf_None_iff: "indexOf xs x = None \<longleftrightarrow> x \<notin> set xs"
  by (induction xs) auto

lemma indexOf_SomeD:
  "indexOf xs x = Some i \<Longrightarrow> i < length xs \<and> xs ! i = x \<and> (\<forall>j<i. xs ! j \<noteq> x)"
proof (induction xs arbitrary: i)
  case Nil
  then show ?case by simp
next
  case (Cons y ys)
  show ?case
  proof (cases "y = x")
    case True
    with Cons.prems show ?thesis by simp
  next
    case False
    with Cons.prems obtain k where k: "indexOf ys x = Some k" "i = Suc k"
      by auto
    from Cons.IH[OF k(1)] False k(2) show ?thesis
      by (auto simp: nth_Cons split: nat.splits)
  qed
qed

lemma scanUp_spec:
  "scanUp colVals n =
     (if {i. i < n \<and> hd (colVals ! i) \<noteq> []} = {} then 2
      else Max {i. i < n \<and> hd (colVals ! i) \<noteq> []} + 3)"
proof (induction n)
  case 0
  then show ?case by simp
next
  case (Suc n)
  let ?S = "\<lambda>m. {i. i < m \<and> hd (colVals ! i) \<noteq> []}"
  show ?case
  proof (cases "hd (colVals ! n) \<noteq> []")
    case True
    have fin: "finite (?S (Suc n))" by simp
    have mem: "n \<in> ?S (Suc n)" using True by simp
    have "Max (?S (Suc n)) = n"
      by (rule Max_eqI[OF fin]) (use mem in auto)
    with mem True show ?thesis by auto
  next
    case False
    have "?S (Suc n) = ?S n"
      using False less_Suc_eq by auto
    with False Suc show ?thesis by simp
  qed
qed

lemma getDisplayValues_nth:
  "i < numRows \<Longrightarrow> hd (getDisplayValues sh r c numRows 1 ! i) = cdisp (cellAt sh (r + i, c))"
  by (simp add: getDisplayValues_def)

lemma length_getDisplayValues: "length (getDisplayValues sh r c numRows numCols) = numRows"
  by (simp add: getDisplayValues_def)

subsection \<open>The next free row\<close>

text \<open>
  Claim C1. When the key column name is not in the header row, \<open>nextFreeRowByHeader_\<close>
  throws (the spec's SchemaError is the exception "Key header not found"). Otherwise the
  key column is the first column with that name, and the result is one more than the
  greatest row below the header whose displayed value in that column is not empty, and 2
  when there is no such row (also when the sheet has no row below the header).
\<close>

theorem nextFreeRow_spec:
  "(Str key \<notin> set (getHeaders sh) \<longrightarrow>
      nextFreeRowByHeader sh key = Inl (Error (''Key header not found: '' @ key))) \<and>
   (Str key \<in> set (getHeaders sh) \<longrightarrow>
      (\<exists>col. 1 \<le> col \<and> col \<le> length (getHeaders sh) \<and> getHeaders sh ! (col - 1) = Str key \<and>
         (\<forall>j<col - 1. getHeaders sh ! j \<noteq> Str key) \<and>
         nextFreeRowByHeader sh key =
           Inr (if {r. 2 \<le> r \<and> r \<le> maxRows sh \<and> cdisp (cellAt sh (r, col)) \<noteq> []} = {} then 2
                else Suc (Max {r. 2 \<le> r \<and> r \<le> maxRows sh \<and> cdisp (cellAt sh (r, col)) \<noteq> []}))))"
proof (intro conjI impI)
  assume "Str key \<notin> set (getHeaders sh)"
  then have "indexOf (getHeaders sh) (Str key) = None"
    by (simp add: indexOf_None_iff)
  then show "nextFreeRowByHeader sh key = Inl (Error (''Key header not found: '' @ key))"
    by (simp add: nextFreeRowByHeader_def)
next
  assume "Str key \<in> set (getHeaders sh)"
  then obtain idx where idx: "indexOf (getHeaders sh) (Str key) = Some idx"
    using indexOf_None_iff[of "getHeaders sh" "Str key"] by (cases "indexOf (getHeaders sh) (Str key)") auto
  note pos = indexOf_SomeD[OF idx]
  let ?col = "Suc idx"
  let ?F = "{r. 2 \<le> r \<and> r \<le> maxRows sh \<and> cdisp (cellAt sh (r, ?col)) \<noteq> []}"
  let ?n = "maxRows sh - 1"
  let ?cv = "getDisplayValues sh 2 ?col ?n 1"
  let ?S = "{i. i < ?n \<and> hd (?cv ! i) \<noteq> []}"
  have S_eq: "?S = {i. i < ?n \<and> cdisp (cellAt sh (2 + i, ?col)) \<noteq> []}"
    using getDisplayValues_nth[of _ ?n sh 2 ?col] by auto
  have F_img: "?F = (\<lambda>i. i + 2) ` ?S"
  proof (rule set_eqI)
    fix r
    show "r \<in> ?F \<longleftrightarrow> r \<in> (\<lambda>i. i + 2) ` ?S"
    proof
      assume "r \<in> ?F"
      then have r: "2 \<le> r" "r \<le> maxRows sh" "cdisp (cellAt sh (r, ?col)) \<noteq> []"
        by auto
      from r(1) have eq: "Suc (Suc (r - 2)) = r" by simp
      have "r - 2 \<in> ?S" "r = (r - 2) + 2"
        unfolding S_eq using r by (auto simp: eq)
      then show "r \<in> (\<lambda>i. i + 2) ` ?S" by blast
    next
      assume "r \<in> (\<lambda>i. i + 2) ` ?S"
      then show "r \<in> ?F" unfolding S_eq by (auto simp: add.commute)
    qed
  qed
  have finS: "finite ?S" by simp
  have res: "nextFreeRowByHeader sh key =
      Inr (if ?F = {} then 2 else Suc (Max ?F))"
  proof (cases "?n = 0")
    case True
    then have "?F = {}" by auto
    with True idx show ?thesis
      by (simp add: nextFreeRowByHeader_def)
  next
    case False
    have run: "nextFreeRowByHeader sh key = Inr (scanUp ?cv ?n)"
      using False idx by (simp add: nextFreeRowByHeader_def Let_def length_getDisplayValues)
    show ?thesis
    proof (cases "?S = {}")
      case True
      then have "?F = {}" using F_img by simp
      with True run show ?thesis by (simp add: scanUp_spec)
    next
      case ne: False
      then have Fne: "?F \<noteq> {}" using F_img by simp
      have "Max ?F = Max ?S + 2"
        unfolding F_img using finS ne
        by (simp add: mono_Max_commute[symmetric] monoI)
      with ne Fne run show ?thesis by (simp add: scanUp_spec)
    qed
  qed
  show "\<exists>col. 1 \<le> col \<and> col \<le> length (getHeaders sh) \<and> getHeaders sh ! (col - 1) = Str key \<and>
         (\<forall>j<col - 1. getHeaders sh ! j \<noteq> Str key) \<and>
         nextFreeRowByHeader sh key =
           Inr (if {r. 2 \<le> r \<and> r \<le> maxRows sh \<and> cdisp (cellAt sh (r, col)) \<noteq> []} = {} then 2
                else Suc (Max {r. 2 \<le> r \<and> r \<le> maxRows sh \<and> cdisp (cellAt sh (r, col)) \<noteq> []}))"
    by (rule exI[of _ ?col]) (use pos res in auto)
qed

lemma exSheet_headers: "getHeaders exSheet = [Str ''ID'', Str ''Name'']"
  by code_simp

lemma exSheet_next_ID: "nextFreeRowByHeader exSheet ''ID'' = Inr 4"
  by code_simp

lemma exSheet_next_Name: "nextFreeRowByHeader exSheet ''Name'' = Inr 6"
  by code_simp

lemma exSheet_next_Zed: "nextFreeRowByHeader exSheet ''Zed'' = Inl (Error ''Key header not found: Zed'')"
  by code_simp

theorem nextFreeRow_spec_witness: "Str ''ID'' \<in> set (getHeaders exSheet) \<and> Str ''Zed'' \<notin> set (getHeaders exSheet) \<and>
   nextFreeRowByHeader exSheet ''Zed'' = Inl (Error (''Key header not found: '' @ ''Zed'')) \<and>
   (\<exists>col. 1 \<le> col \<and> col \<le> length (getHeaders exSheet) \<and> getHeaders exSheet ! (col - 1) = Str ''ID'' \<and>
         (\<forall>j<col - 1. getHeaders exSheet ! j \<noteq> Str ''ID'') \<and>
         nextFreeRowByHeader exSheet ''ID'' =
           Inr (if {r. 2 \<le> r \<and> r \<le> maxRows exSheet \<and> cdisp (cellAt exSheet (r, col)) \<noteq> []} = {} then 2
                else Suc (Max {r. 2 \<le> r \<and> r \<le> maxRows exSheet \<and> cdisp (cellAt exSheet (r, col)) \<noteq> []})))"
proof -
  have h1: "Str ''ID'' \<in> set (getHeaders exSheet)" and h2: "Str ''Zed'' \<notin> set (getHeaders exSheet)"
    by (simp_all add: exSheet_headers)
  from nextFreeRow_spec[of "''ID''" exSheet] nextFreeRow_spec[of "''Zed''" exSheet] h1 h2
  show ?thesis by blast
qed

subsection \<open>The automatic notes\<close>

text \<open>
  The sentences of the notes come in the fixed order, each one when its category matches:
  the two historic sentences when the flag is set, the minor-difference sentence when
  there is a selection, the instability sentence when a selection has a structural code,
  the flattening sentence when a selection has a flattening code.
\<close>

lemma noteLines_order:
  "noteLines p =
     (if p_historicYes p then [HISTORIC_1, HISTORIC_2] else []) @
     (if p_selections p \<noteq> [] then [MINOR_DIFFERENCE] else []) @
     (if \<exists>s \<in> set (p_selections p). \<exists>c \<in> set structural. sel_code s = Some c then [INSTABILITY] else []) @
     (if \<exists>s \<in> set (p_selections p). \<exists>c \<in> set flattening. sel_code s = Some c then [FLATTENING] else [])"
proof -
  have ex: "list_ex (\<lambda>c. Some c \<in> set (remdups (map sel_code (p_selections p)))) cs \<longleftrightarrow>
      (\<exists>s \<in> set (p_selections p). \<exists>c \<in> set cs. sel_code s = Some c)" for cs
    unfolding list_ex_iff set_remdups set_map image_iff by metis
  have ne: "length (remdups (map sel_code (p_selections p))) \<noteq> 0 \<longleftrightarrow> p_selections p \<noteq> []"
    by simp
  show ?thesis
    unfolding noteLines_def Let_def ex ne by simp
qed

lemma noteLines_example:
  "noteLines (exPayload ''B'' True [exSelection ''STRUCT_DAMAGED'' None]) =
     [HISTORIC_1, HISTORIC_2, MINOR_DIFFERENCE, INSTABILITY]"
  by (simp add: noteLines_def exPayload_def exSelection_def structural_def flattening_def)

text \<open>
  Claim C5. For the selections with the one code STRUCT_DAMAGED and the historic flag
  set, the four sentences come in the order the claim gives and the flattening sentence
  is absent, but the separator between two sentences is the two characters backslash
  and n, and the text holds no newline character.
\<close>

theorem buildNotes_separator:
  "buildNotes (exPayload ''B'' True [exSelection ''STRUCT_DAMAGED'' None]) =
     HISTORIC_1 @ [CHR 0x5C, CHR ''n''] @ HISTORIC_2 @ [CHR 0x5C, CHR ''n''] @
     MINOR_DIFFERENCE @ [CHR 0x5C, CHR ''n''] @ INSTABILITY \<and>
   CHR 0x0A \<notin> set (buildNotes (exPayload ''B'' True [exSelection ''STRUCT_DAMAGED'' None]))"
  by (simp add: buildNotes_def noteLines_example)
     (simp add: HISTORIC_1_def HISTORIC_2_def MINOR_DIFFERENCE_def INSTABILITY_def)

subsection \<open>The flags of a selection\<close>

text \<open>
  The regular expressions of \<open>saveItem\<close> fold case by the upper case; the comparison of
  the notes lookup folds by the lower case. On the code units below 256 the two agree.
\<close>

lemma of_char_upperChar:
  "(of_char (upperChar c) :: nat) =
     (if (97 \<le> (of_char c :: nat) \<and> (of_char c :: nat) \<le> 122) \<or>
         (224 \<le> (of_char c :: nat) \<and> (of_char c :: nat) \<le> 254 \<and> (of_char c :: nat) \<noteq> 247)
      then of_char c - 32 else of_char c)"
proof -
  have lt: "(of_char c :: nat) < 256" by simp
  then have "((of_char c :: nat) - 32) mod 256 = of_char c - 32"
    by (simp add: less_imp_diff_less)
  then show ?thesis
    by (simp add: upperChar_def Let_def)
qed

lemma of_char_lowerChar:
  "(of_char (lowerChar c) :: nat) =
     (if (65 \<le> (of_char c :: nat) \<and> (of_char c :: nat) \<le> 90) \<or>
         (192 \<le> (of_char c :: nat) \<and> (of_char c :: nat) \<le> 222 \<and> (of_char c :: nat) \<noteq> 215)
      then of_char c + 32 else of_char c)"
proof -
  have "(65 \<le> (of_char c :: nat) \<and> (of_char c :: nat) \<le> 90) \<or>
         (192 \<le> (of_char c :: nat) \<and> (of_char c :: nat) \<le> 222 \<and> (of_char c :: nat) \<noteq> 215)
     \<Longrightarrow> ((of_char c :: nat) + 32) mod 256 = of_char c + 32"
    by (intro mod_less) auto
  then show ?thesis
    by (auto simp add: lowerChar_def Let_def)
qed

lemma lowerChar_upperChar: "lowerChar (upperChar c) = lowerChar c"
proof -
  have "(of_char (lowerChar (upperChar c)) :: nat) = of_char (lowerChar c)"
    unfolding of_char_lowerChar[of "upperChar c"] of_char_lowerChar[of c] of_char_upperChar
    by (simp split: if_splits) arith
  then show ?thesis by simp
qed

lemma upperChar_lowerChar: "upperChar (lowerChar c) = upperChar c"
proof -
  have "(of_char (upperChar (lowerChar c)) :: nat) = of_char (upperChar c)"
    unfolding of_char_upperChar[of "lowerChar c"] of_char_upperChar[of c] of_char_lowerChar
    by (simp split: if_splits)
  then show ?thesis by simp
qed

lemma canonicalize_eq_iff:
  "canonicalize a = canonicalize b \<longleftrightarrow> lowerChar a = lowerChar b"
proof
  assume "canonicalize a = canonicalize b"
  then have "lowerChar (upperChar a) = lowerChar (upperChar b)"
    by (simp add: canonicalize_def)
  then show "lowerChar a = lowerChar b" by (simp only: lowerChar_upperChar)
next
  assume "lowerChar a = lowerChar b"
  then have "upperChar (lowerChar a) = upperChar (lowerChar b)" by simp
  then show "canonicalize a = canonicalize b"
    by (simp only: upperChar_lowerChar canonicalize_def)
qed

lemma matchesAt_iff:
  "matchesAt pat s \<longleftrightarrow> (\<exists>u suf. s = u @ suf \<and> toLowerCase u = toLowerCase pat)"
proof (induction pat s rule: matchesAt.induct)
  case (1 s)
  then show ?case by (simp add: toLowerCase_def)
next
  case (2 p ps)
  then show ?case by (simp add: toLowerCase_def)
next
  case (3 p ps c cs)
  show ?case
  proof
    assume "matchesAt (p # ps) (c # cs)"
    then have pc: "lowerChar p = lowerChar c" and "matchesAt ps cs"
      by (simp_all add: canonicalize_eq_iff)
    with 3 obtain u suf where "cs = u @ suf" "toLowerCase u = toLowerCase ps"
      by blast
    then have "c # cs = (c # u) @ suf \<and> toLowerCase (c # u) = toLowerCase (p # ps)"
      using pc by (simp add: toLowerCase_def)
    then show "\<exists>u suf. c # cs = u @ suf \<and> toLowerCase u = toLowerCase (p # ps)"
      by blast
  next
    assume "\<exists>u suf. c # cs = u @ suf \<and> toLowerCase u = toLowerCase (p # ps)"
    then obtain u suf where u: "c # cs = u @ suf" "toLowerCase u = toLowerCase (p # ps)"
      by blast
    from u(2) obtain d ds where uds: "u = d # ds"
      by (cases u) (simp_all add: toLowerCase_def)
    with u have "d = c" "cs = ds @ suf" "lowerChar d = lowerChar p" "toLowerCase ds = toLowerCase ps"
      by (simp_all add: toLowerCase_def)
    with 3 show "matchesAt (p # ps) (c # cs)"
      by (auto simp: canonicalize_eq_iff)
  qed
qed

lemma testLiteralI_iff:
  "testLiteralI pat s \<longleftrightarrow> (\<exists>pre u suf. s = pre @ u @ suf \<and> toLowerCase u = toLowerCase pat)"
proof (induction s)
  case Nil
  show ?case by (simp add: matchesAt_iff)
next
  case (Cons c cs)
  show ?case
  proof
    assume "testLiteralI pat (c # cs)"
    then consider "matchesAt pat (c # cs)" | "testLiteralI pat cs" by auto
    then show "\<exists>pre u suf. c # cs = pre @ u @ suf \<and> toLowerCase u = toLowerCase pat"
    proof cases
      case 1
      then obtain u suf where "c # cs = [] @ u @ suf" "toLowerCase u = toLowerCase pat"
        by (auto simp: matchesAt_iff)
      then show ?thesis by blast
    next
      case 2
      with Cons obtain pre u suf where "cs = pre @ u @ suf" "toLowerCase u = toLowerCase pat"
        by blast
      then have "c # cs = (c # pre) @ u @ suf" by simp
      with \<open>toLowerCase u = toLowerCase pat\<close> show ?thesis by blast
    qed
  next
    assume "\<exists>pre u suf. c # cs = pre @ u @ suf \<and> toLowerCase u = toLowerCase pat"
    then obtain pre u suf where h: "c # cs = pre @ u @ suf" "toLowerCase u = toLowerCase pat"
      by blast
    show "testLiteralI pat (c # cs)"
    proof (cases pre)
      case Nil
      with h have "matchesAt pat (c # cs)" by (auto simp: matchesAt_iff)
      then show ?thesis by simp
    next
      case (Cons d ds)
      with h have "cs = ds @ u @ suf" by simp
      with h(2) Cons.IH have "testLiteralI pat cs" by blast
      then show ?thesis by simp
    qed
  qed
qed

text \<open>
  In the object that \<open>saveItem\<close> builds for a selection, NeedsReplacement is TRUE exactly
  when some part of the selection's note equals "Replacement needed" up to the case of its
  letters, and FALSE otherwise; NeedsReupholstery likewise for "Reupholstery needed".
\<close>

lemma selectionRow_needs_flags:
  "map_of (selectionRow uuid itemId p s) ''NeedsReplacement'' =
     Some (if \<exists>pre u suf. orEmpty (sel_note s) = pre @ u @ suf \<and>
                toLowerCase u = toLowerCase ''Replacement needed''
           then ''TRUE'' else ''FALSE'') \<and>
   map_of (selectionRow uuid itemId p s) ''NeedsReupholstery'' =
     Some (if \<exists>pre u suf. orEmpty (sel_note s) = pre @ u @ suf \<and>
                toLowerCase u = toLowerCase ''Reupholstery needed''
           then ''TRUE'' else ''FALSE'')"
  unfolding testLiteralI_iff[symmetric]
  by (simp add: selectionRow_def Let_def)

lemma selectionRow_example_replacement: "map_of (selectionRow ''0123456789'' ''ITM-1'' (exPayload ''B'' False [])
     (exSelection ''X'' (Some ''seat torn - REPLACEMENT NEEDED soon''))) ''NeedsReplacement'' = Some ''TRUE''"
  by code_simp
lemma selectionRow_example_reupholstery: "map_of (selectionRow ''0123456789'' ''ITM-1'' (exPayload ''B'' False [])
     (exSelection ''X'' (Some ''seat torn - REPLACEMENT NEEDED soon''))) ''NeedsReupholstery'' = Some ''FALSE''"
  by code_simp

subsection \<open>The last column and the last row\<close>

lemma lastWhere_Suc:
  "lastWhere P (Suc n) = (if P (Suc n) then Suc n else lastWhere P n)"
  by (simp add: lastWhere_def)

lemma lastWhere_le: "lastWhere P n \<le> n"
  by (induction n) (auto simp: lastWhere_Suc lastWhere_def)

lemma lastWhere_holds: "lastWhere P n \<noteq> 0 \<Longrightarrow> P (lastWhere P n)"
  by (induction n) (auto simp: lastWhere_Suc lastWhere_def)

lemma lastWhere_upper: "P i \<Longrightarrow> 1 \<le> i \<Longrightarrow> i \<le> n \<Longrightarrow> i \<le> lastWhere P n"
proof (induction n)
  case 0
  then show ?case by simp
next
  case (Suc n)
  then show ?case
    by (cases "i = Suc n") (auto simp: lastWhere_Suc)
qed

lemma lastWhere_cong:
  "(\<And>i. 1 \<le> i \<Longrightarrow> i \<le> n \<Longrightarrow> P i = Q i) \<Longrightarrow> lastWhere P n = lastWhere Q n"
  by (induction n) (auto simp: lastWhere_Suc lastWhere_def)

lemma lastWhere_extend:
  "(\<And>i. n < i \<Longrightarrow> i \<le> m \<Longrightarrow> \<not> P i) \<Longrightarrow> n \<le> m \<Longrightarrow> lastWhere P m = lastWhere P n"
proof (induction m)
  case 0
  then show ?case by simp
next
  case (Suc m)
  show ?case
  proof (cases "n = Suc m")
    case True
    then show ?thesis by simp
  next
    case False
    with Suc.prems have "n \<le> m" "\<not> P (Suc m)" by auto
    with Suc show ?thesis by (simp add: lastWhere_Suc)
  qed
qed

lemma cellAt_outside: "\<not> inGrid sh p \<Longrightarrow> cellAt sh p = blank"
  by (simp add: cellAt_def)

lemma content_inGrid: "cellAt sh p \<noteq> blank \<Longrightarrow> inGrid sh p"
  by (cases "inGrid sh p") (simp_all add: cellAt_def)

lemma colHasContent_iff: "colHasContent sh c \<longleftrightarrow> (\<exists>r. cellAt sh (r, c) \<noteq> blank)"
proof
  assume "colHasContent sh c"
  then show "\<exists>r. cellAt sh (r, c) \<noteq> blank"
    by (auto simp: colHasContent_def list_ex_iff)
next
  assume "\<exists>r. cellAt sh (r, c) \<noteq> blank"
  then obtain r where r: "cellAt sh (r, c) \<noteq> blank" by blast
  then have "inGrid sh (r, c)" by (rule content_inGrid)
  then have "r \<in> set [1..<Suc (maxRows sh)]" by (auto simp: inGrid_def)
  with r show "colHasContent sh c"
    unfolding colHasContent_def list_ex_iff by blast
qed

lemma rowHasContent_iff: "rowHasContent sh r \<longleftrightarrow> (\<exists>c. cellAt sh (r, c) \<noteq> blank)"
proof
  assume "rowHasContent sh r"
  then show "\<exists>c. cellAt sh (r, c) \<noteq> blank"
    by (auto simp: rowHasContent_def list_ex_iff)
next
  assume "\<exists>c. cellAt sh (r, c) \<noteq> blank"
  then obtain c where c: "cellAt sh (r, c) \<noteq> blank" by blast
  then have "inGrid sh (r, c)" by (rule content_inGrid)
  then have "c \<in> set [1..<Suc (maxCols sh)]" by (auto simp: inGrid_def)
  with c show "rowHasContent sh r"
    unfolding rowHasContent_def list_ex_iff by blast
qed

lemma content_le_lastColumn:
  assumes "cellAt sh (r, c) \<noteq> blank"
  shows "c \<le> getLastColumn sh"
proof -
  from assms have "inGrid sh (r, c)" by (rule content_inGrid)
  then have "1 \<le> c" "c \<le> maxCols sh" by (auto simp: inGrid_def)
  moreover have "colHasContent sh c" using assms colHasContent_iff by blast
  ultimately show ?thesis
    unfolding getLastColumn_def by (intro lastWhere_upper)
qed

lemma content_le_lastRow:
  assumes "cellAt sh (r, c) \<noteq> blank"
  shows "r \<le> getLastRow sh"
proof -
  from assms have "inGrid sh (r, c)" by (rule content_inGrid)
  then have "1 \<le> r" "r \<le> maxRows sh" by (auto simp: inGrid_def)
  moreover have "rowHasContent sh r" using assms rowHasContent_iff by blast
  ultimately show ?thesis
    unfolding getLastRow_def by (intro lastWhere_upper)
qed

lemma beyond_lastColumn: "getLastColumn sh < c \<Longrightarrow> cellAt sh (r, c) = blank"
  using content_le_lastColumn[of sh r c] by force

lemma beyond_lastRow: "getLastRow sh < r \<Longrightarrow> cellAt sh (r, c) = blank"
  using content_le_lastRow[of sh r c] by force

lemma lastColumn_content:
  "getLastColumn sh \<noteq> 0 \<Longrightarrow> \<exists>r. cellAt sh (r, getLastColumn sh) \<noteq> blank"
  unfolding getLastColumn_def using lastWhere_holds[of "colHasContent sh" "maxCols sh"]
  by (simp add: colHasContent_iff)

lemma lastRow_content:
  "getLastRow sh \<noteq> 0 \<Longrightarrow> \<exists>c. cellAt sh (getLastRow sh, c) \<noteq> blank"
  unfolding getLastRow_def using lastWhere_holds[of "rowHasContent sh" "maxRows sh"]
  by (simp add: rowHasContent_iff)

text \<open>The last column and row depend on the cells only, not on the size of the grid.\<close>

lemma getLastColumn_eqI:
  assumes "\<And>r c. n < c \<Longrightarrow> cellAt sh (r, c) = blank"
    and "n = 0 \<or> (\<exists>r. cellAt sh (r, n) \<noteq> blank)"
  shows "getLastColumn sh = n"
proof (rule antisym)
  show "getLastColumn sh \<le> n"
  proof (rule ccontr)
    assume "\<not> getLastColumn sh \<le> n"
    then have "n < getLastColumn sh" by simp
    moreover from this obtain r where "cellAt sh (r, getLastColumn sh) \<noteq> blank"
      using lastColumn_content[of sh] by auto
    ultimately show False using assms(1) by blast
  qed
next
  from assms(2) show "n \<le> getLastColumn sh"
    using content_le_lastColumn by auto
qed

lemma getLastRow_eqI:
  assumes "\<And>r c. n < r \<Longrightarrow> cellAt sh (r, c) = blank"
    and "n = 0 \<or> (\<exists>c. cellAt sh (n, c) \<noteq> blank)"
  shows "getLastRow sh = n"
proof (rule antisym)
  show "getLastRow sh \<le> n"
  proof (rule ccontr)
    assume "\<not> getLastRow sh \<le> n"
    then have "n < getLastRow sh" by simp
    moreover from this obtain c where "cellAt sh (getLastRow sh, c) \<noteq> blank"
      using lastRow_content[of sh] by auto
    ultimately show False using assms(1) by blast
  qed
next
  from assms(2) show "n \<le> getLastRow sh"
    using content_le_lastRow by auto
qed

lemma getLastColumn_cong:
  assumes "\<And>p. cellAt sh' p = cellAt sh p"
  shows "getLastColumn sh' = getLastColumn sh"
proof (rule getLastColumn_eqI)
  fix r c assume "getLastColumn sh < c"
  then show "cellAt sh' (r, c) = blank" by (simp add: assms beyond_lastColumn)
next
  show "getLastColumn sh = 0 \<or> (\<exists>r. cellAt sh' (r, getLastColumn sh) \<noteq> blank)"
    using lastColumn_content[of sh] by (auto simp: assms)
qed

lemma getLastRow_cong:
  assumes "\<And>p. cellAt sh' p = cellAt sh p"
  shows "getLastRow sh' = getLastRow sh"
proof (rule getLastRow_eqI)
  fix r c assume "getLastRow sh < r"
  then show "cellAt sh' (r, c) = blank" by (simp add: assms beyond_lastRow)
next
  show "getLastRow sh = 0 \<or> (\<exists>c. cellAt sh' (getLastRow sh, c) \<noteq> blank)"
    using lastRow_content[of sh] by (auto simp: assms)
qed

lemma getHeaders_eq:
  "getHeaders sh = map (\<lambda>c. cval (cellAt sh (1, c))) [1..<Suc (max 1 (getLastColumn sh))]"
  by (simp add: getHeaders_def getValues_def Let_def)

lemma length_getHeaders: "length (getHeaders sh) = max 1 (getLastColumn sh)"
  by (simp add: getHeaders_eq)

lemma getHeaders_nth:
  "i < length (getHeaders sh) \<Longrightarrow> getHeaders sh ! i = cval (cellAt sh (1, Suc i))"
  unfolding getHeaders_eq by (simp add: nth_map_upt del: upt_Suc)

lemma getHeaders_cong:
  assumes "\<And>p. cellAt sh' p = cellAt sh p"
  shows "getHeaders sh' = getHeaders sh"
  by (simp add: getHeaders_eq assms getLastColumn_cong[of sh' sh, OF assms])

lemma beyond_headers: "length (getHeaders sh) < c \<Longrightarrow> cellAt sh (r, c) = blank"
  by (rule beyond_lastColumn) (simp add: length_getHeaders)

subsection \<open>The data range and the notes lookup\<close>

lemma getDataRangeValues_eq:
  "getDataRangeValues sh = map (dataRow sh) [1..<Suc (max 1 (getLastRow sh))]"
  by (simp add: getDataRangeValues_def getValues_def dataRow_def)

lemma length_getDataRangeValues: "length (getDataRangeValues sh) = max 1 (getLastRow sh)"
  by (simp add: getDataRangeValues_eq)

lemma upt_from_1:
  assumes "1 \<le> n"
  shows "[1..<Suc n] = 1 # [2..<Suc n]"
proof -
  have "[1..<Suc n] = 1 # [Suc 1..<Suc n]"
    by (rule upt_conv_Cons) (use assms in simp)
  then show ?thesis by (simp only: Suc_1)
qed

lemma dataRange_split:
  "getDataRangeValues sh = getHeaders sh # map (dataRow sh) [2..<Suc (getLastRow sh)]"
proof -
  have a: "[1..<Suc (max 1 (getLastRow sh))] = 1 # [2..<Suc (max 1 (getLastRow sh))]"
    by (rule upt_from_1) simp
  have b: "[2..<Suc (max 1 (getLastRow sh))] = [2..<Suc (getLastRow sh)]"
    by (cases "getLastRow sh = 0") (simp_all add: max_def)
  have c: "dataRow sh 1 = getHeaders sh"
    by (simp only: dataRow_def getHeaders_eq)
  show ?thesis
    unfolding getDataRangeValues_eq a b list.map c ..
qed

lemma length_dataRow: "length (dataRow sh r) = max 1 (getLastColumn sh)"
  by (simp add: dataRow_def)

lemma dataRow_nth:
  "j < max 1 (getLastColumn sh) \<Longrightarrow> dataRow sh r ! j = cval (cellAt sh (r, Suc j))"
  unfolding dataRow_def by (simp add: nth_map_upt del: upt_Suc)

lemma dataRow_first: "orBlank (nthOpt (dataRow sh r) 0) = orBlank (Some (cval (cellAt sh (r, 1))))"
  by (simp add: nthOpt_def length_dataRow dataRow_nth)

lemma dataRow_second: "orBlank (nthOpt (dataRow sh r) 1) = orBlank (Some (cval (cellAt sh (r, 2))))"
proof (cases "1 < max 1 (getLastColumn sh)")
  case True
  then have "dataRow sh r ! 1 = cval (cellAt sh (r, Suc 1))"
    by (intro dataRow_nth)
  moreover from True have "1 < getLastColumn sh" by (simp add: max_def split: if_splits)
  ultimately show ?thesis
    by (simp add: nthOpt_def length_dataRow numeral_2_eq_2)
next
  case False
  then have "getLastColumn sh < 2" by simp
  then have "cellAt sh (r, 2) = blank" by (rule beyond_lastColumn)
  with False show ?thesis
    by (simp add: nthOpt_def length_dataRow blank_def)
qed

lemma toStr_orBlank: "toStr (orBlank (Some v)) = textOrBlank v"
  by (cases v) (auto simp: textOrBlank_def)

lemma toLowerCase_Nil_iff: "toLowerCase s = toLowerCase t \<Longrightarrow> s = [] \<longleftrightarrow> t = []"
  by (auto simp: toLowerCase_def)

lemma notesScan_rows:
  assumes "code \<noteq> []"
  shows "notesScan (map (dataRow sh) rs) code =
     (case find (\<lambda>r. toLowerCase (trim (textOrBlank (cval (cellAt sh (r, 1))))) = toLowerCase code) rs of
        None \<Rightarrow> []
      | Some r \<Rightarrow> trim (textOrBlank (cval (cellAt sh (r, 2)))))"
proof (induction rs)
  case Nil
  then show ?case by simp
next
  case (Cons r rs)
  have "trim (textOrBlank (cval (cellAt sh (r, 1)))) = [] \<Longrightarrow>
      toLowerCase (trim (textOrBlank (cval (cellAt sh (r, 1))))) \<noteq> toLowerCase code"
    using assms toLowerCase_Nil_iff by blast
  with Cons show ?case
    by (simp add: Let_def dataRow_first dataRow_second toStr_orBlank del: One_nat_def orBlank.simps)
qed

lemma notesScan_skips_blank:
  "trim (toStr (orBlank (nthOpt row 0))) = [] \<Longrightarrow> notesScan (row # rows) code = notesScan rows code"
  by simp

text \<open>
  Claim C10, as the code has it. The text of a cell value in the lookup is
  \<open>String(value || '')\<close>: an empty cell, the number 0 and the boolean false all count as
  blank, and every other value gives its string. For a code that is not blank after
  trimming, the lookup returns the trimmed text of the second-column value of the first row
  below the header whose trimmed first-column text equals the trimmed code up to case; a
  row whose first column is blank in this sense never matches. The result is the empty
  string when the code is blank, when the sheet NotesRules is absent, when no row matches
  and when there is no row below the header. The function is total: no case throws.
\<close>

theorem getNote_spec:
  "getNoteFromNotesRules w code =
     (if trim code = [] then []
      else case sheets w ''NotesRules'' of
             None \<Rightarrow> []
           | Some sh \<Rightarrow>
               (case find (\<lambda>r. toLowerCase (trim (textOrBlank (cval (cellAt sh (r, 1))))) =
                                toLowerCase (trim code))
                       [2..<Suc (getLastRow sh)] of
                  None \<Rightarrow> []
                | Some r \<Rightarrow> trim (textOrBlank (cval (cellAt sh (r, 2))))))"
proof (cases "trim code = []")
  case True
  then show ?thesis by (simp add: getNoteFromNotesRules_def)
next
  case ne: False
  show ?thesis
  proof (cases "sheets w ''NotesRules''")
    case None
    with ne show ?thesis by (simp add: getNoteFromNotesRules_def)
  next
    case (Some sh)
    let ?v = "getDataRangeValues sh"
    let ?P = "\<lambda>r. toLowerCase (trim (textOrBlank (cval (cellAt sh (r, 1))))) = toLowerCase (trim code)"
    have "drop 1 ?v = map (dataRow sh) [2..<Suc (getLastRow sh)]"
      by (simp add: dataRange_split del: upt_Suc)
    then have scan: "notesScan (drop 1 ?v) (trim code) =
        (case find ?P [2..<Suc (getLastRow sh)] of None \<Rightarrow> []
         | Some r \<Rightarrow> trim (textOrBlank (cval (cellAt sh (r, 2)))))"
      by (simp only: notesScan_rows[OF ne])
    show ?thesis
    proof (cases "length ?v < 2")
      case True
      then have "getLastRow sh < 2" by (simp add: length_getDataRangeValues)
      then have "[2..<Suc (getLastRow sh)] = []" by simp
      with True ne Some show ?thesis by (simp add: getNoteFromNotesRules_def)
    next
      case False
      with ne Some scan show ?thesis by (simp add: getNoteFromNotesRules_def del: upt_Suc)
    qed
  qed
qed

theorem getNote_spec_witness:
  "getNoteFromNotesRules exStore '' H1 '' = ''first note'' \<and>
   (if trim '' H1 '' = [] then []
    else case sheets exStore ''NotesRules'' of
           None \<Rightarrow> []
         | Some sh \<Rightarrow>
             (case find (\<lambda>r. toLowerCase (trim (textOrBlank (cval (cellAt sh (r, 1))))) =
                              toLowerCase (trim '' H1 ''))
                     [2..<Suc (getLastRow sh)] of
                None \<Rightarrow> []
              | Some r \<Rightarrow> trim (textOrBlank (cval (cellAt sh (r, 2)))))) = ''first note''"
proof -
  have a: "getNoteFromNotesRules exStore '' H1 '' = ''first note''"
    by code_simp
  from a getNote_spec[of exStore "'' H1 ''"] show ?thesis
    by (simp only: simp_thms)
qed

text \<open>
  The claim as stated, with the value of a cell for its text and a cell that holds
  something for a cell that is not blank, fails on cells that hold the number 0 or the
  boolean false. In the table \<open>cxRules\<close> the first data row has the number 0 for its code,
  whose string is the code looked up, and the row is skipped as blank; the second data row
  has the boolean false for its note, whose string is not empty, and the lookup of its
  code returns the empty string.
\<close>

theorem getNote_falsy_cells:
  "cval (cellAt cxRules (2, 1)) = Num 0 \<and> trim (toStr (Num 0)) = ''0'' \<and>
   cval (cellAt cxRules (2, 2)) = Str ''zero note'' \<and>
   getNoteFromNotesRules cxNotes ''0'' = [] \<and>
   cval (cellAt cxRules (3, 1)) = Str ''h1'' \<and> cval (cellAt cxRules (3, 2)) = Bool False \<and>
   trim (toStr (Bool False)) = ''false'' \<and>
   getNoteFromNotesRules cxNotes ''h1'' = []"
  by code_simp

lemma getNote_example_first: "getNoteFromNotesRules exStore '' H1 '' = ''first note''"
  by code_simp

lemma getNote_example_none: "getNoteFromNotesRules exStore ''h3'' = []"
  by code_simp

lemma getNote_example_blank: "getNoteFromNotesRules exStore ''  '' = []"
  by code_simp

lemma getNote_example_number: "getNoteFromNotesRules cxNotes ''12'' = ''twelve''"
  by code_simp

subsection \<open>Reading all rows, and the code of an item\<close>

lemma fold_rowObject:
  "fold (\<lambda>i obj. obj(toStr (hs ! i) \<mapsto> row ! i)) [0..<n] m k =
     (if \<exists>i<n. toStr (hs ! i) = k then Some (row ! Max {i. i < n \<and> toStr (hs ! i) = k}) else m k)"
proof (induction n)
  case 0
  then show ?case by simp
next
  case (Suc n)
  let ?f = "\<lambda>i obj. obj(toStr (hs ! i) \<mapsto> row ! i)"
  have step: "fold ?f [0..<Suc n] m k = ((fold ?f [0..<n] m)(toStr (hs ! n) \<mapsto> row ! n)) k"
    by simp
  show ?case
  proof (cases "toStr (hs ! n) = k")
    case True
    have "Max {i. i < Suc n \<and> toStr (hs ! i) = k} = n"
      by (rule Max_eqI) (use True in auto)
    moreover have "\<exists>i<Suc n. toStr (hs ! i) = k" using True by blast
    ultimately show ?thesis unfolding step using True by simp
  next
    case False
    then have "{i. i < Suc n \<and> toStr (hs ! i) = k} = {i. i < n \<and> toStr (hs ! i) = k}"
      using less_Suc_eq by auto
    moreover have "(\<exists>i<Suc n. toStr (hs ! i) = k) \<longleftrightarrow> (\<exists>i<n. toStr (hs ! i) = k)"
      using False less_Suc_eq by auto
    moreover have "((fold ?f [0..<n] m)(toStr (hs ! n) \<mapsto> row ! n)) k = fold ?f [0..<n] m k"
      using False by simp
    ultimately show ?thesis unfolding step using Suc by (simp only:)
  qed
qed

lemma rowObject_lookup:
  "rowObject hs row k =
     (if \<exists>i<length hs. toStr (hs ! i) = k then Some (row ! Max {i. i < length hs \<and> toStr (hs ! i) = k}) else None)"
  by (simp add: rowObject_def fold_rowObject)

lemma rowObject_eq_Some_iff:
  "rowObject hs row k = Some b \<longleftrightarrow>
     (\<exists>i<length hs. toStr (hs ! i) = k \<and> (\<forall>j. i < j \<and> j < length hs \<longrightarrow> toStr (hs ! j) \<noteq> k) \<and> row ! i = b)"
proof
  assume a: "rowObject hs row k = Some b"
  let ?S = "{i. i < length hs \<and> toStr (hs ! i) = k}"
  from a have ex: "\<exists>i<length hs. toStr (hs ! i) = k" and b: "row ! Max ?S = b"
    by (auto simp: rowObject_lookup split: if_splits)
  have fin: "finite ?S" by simp
  from ex have ne: "?S \<noteq> {}" by auto
  have "Max ?S \<in> ?S" using fin ne by (rule Max_in)
  moreover have "\<forall>j. Max ?S < j \<and> j < length hs \<longrightarrow> toStr (hs ! j) \<noteq> k"
    using Max_ge[OF fin] by (metis (mono_tags, lifting) leD mem_Collect_eq)
  ultimately show "\<exists>i<length hs. toStr (hs ! i) = k \<and> (\<forall>j. i < j \<and> j < length hs \<longrightarrow> toStr (hs ! j) \<noteq> k) \<and> row ! i = b"
    using b by blast
next
  assume "\<exists>i<length hs. toStr (hs ! i) = k \<and> (\<forall>j. i < j \<and> j < length hs \<longrightarrow> toStr (hs ! j) \<noteq> k) \<and> row ! i = b"
  then obtain i where i: "i < length hs" "toStr (hs ! i) = k"
      "\<forall>j. i < j \<and> j < length hs \<longrightarrow> toStr (hs ! j) \<noteq> k" "row ! i = b"
    by blast
  have "Max {i. i < length hs \<and> toStr (hs ! i) = k} = i"
    by (rule Max_eqI) (use i in \<open>auto simp: not_less[symmetric]\<close>)
  with i show "rowObject hs row k = Some b"
    by (auto simp: rowObject_lookup)
qed

lemma getAll_eq:
  "getAll w name =
     (case sheets w name of
        None \<Rightarrow> []
      | Some sh \<Rightarrow> map (\<lambda>r. rowObject (getHeaders sh) (dataRow sh r)) [2..<Suc (getLastRow sh)])"
proof (cases "sheets w name")
  case None
  then show ?thesis by (simp add: getAll_def)
next
  case (Some sh)
  show ?thesis
  proof (cases "length (getDataRangeValues sh) \<le> 1")
    case True
    then have "getLastRow sh < 2" by (simp add: length_getDataRangeValues)
    then have "[2..<Suc (getLastRow sh)] = []" by simp
    with True Some show ?thesis by (simp add: getAll_def)
  next
    case False
    with Some show ?thesis
      by (simp add: getAll_def dataRange_split del: upt_Suc)
  qed
qed

lemma length_decimal_pos: "0 < length (decimal n)"
  by (subst decimal.simps) simp

lemma decimal_small: "n < 10 \<Longrightarrow> decimal n = [digitChar n]"
  by (subst decimal.simps) simp

lemma decimal_step: "10 \<le> n \<Longrightarrow> decimal n = decimal (n div 10) @ [digitChar (n mod 10)]"
  by (subst decimal.simps) simp

lemma digitChar_0: "digitChar 0 = CHR ''0''"
  by (simp add: digitChar_def)

lemma padStart3_decimal:
  "padStart (decimal n) 3 CHR ''0'' =
     (if n < 1000 then [digitChar (n div 100), digitChar (n div 10 mod 10), digitChar (n mod 10)]
      else decimal n)"
proof -
  consider "n < 10" | "10 \<le> n" "n < 100" | "100 \<le> n" "n < 1000" | "1000 \<le> n" by linarith
  then show ?thesis
  proof cases
    case 1
    then show ?thesis
      by (simp add: decimal_small padStart_def digitChar_0 numeral_3_eq_3)
  next
    case 2
    then have "n div 10 < 10" by simp
    with 2 show ?thesis
      by (simp add: decimal_step decimal_small padStart_def digitChar_0)
  next
    case 3
    then have a: "10 \<le> n" "10 \<le> n div 10" "n div 10 div 10 < 10" by simp_all
    have "n div 10 div 10 = n div 100" by (simp add: div_mult2_eq)
    with 3 a show ?thesis
      by (simp add: decimal_step decimal_small padStart_def)
  next
    case 4
    then have a: "10 \<le> n" "10 \<le> n div 10" "10 \<le> n div 10 div 10" by simp_all
    then have "decimal n = decimal (n div 10 div 10 div 10) @ [digitChar (n div 10 div 10 mod 10)]
        @ [digitChar (n div 10 mod 10)] @ [digitChar (n mod 10)]"
      by (simp add: decimal_step)
    then have "3 < length (decimal n)"
      using length_decimal_pos[of "n div 10 div 10 div 10"] by simp
    with 4 show ?thesis by (simp add: padStart_def)
  qed
qed

lemma nextCodeForBatch_example_fresh: "nextCodeForBatch exStore ''B3'' = ''I001''"
  by code_simp

subsection \<open>Writes and the cells they change\<close>

lemma inGrid_setValue:
  "inGrid (setValue sh r c v) p \<longleftrightarrow>
     1 \<le> fst p \<and> fst p \<le> max (maxRows sh) r \<and> 1 \<le> snd p \<and> snd p \<le> max (maxCols sh) c"
  by (simp add: inGrid_def setValue_def)

lemma cellAt_setValue:
  assumes "1 \<le> r" "1 \<le> c"
  shows "cellAt (setValue sh r c v) p = (if p = (r, c) then textCell v else cellAt sh p)"
proof (cases "p = (r, c)")
  case True
  with assms show ?thesis
    by (simp add: cellAt_def inGrid_setValue) (simp add: setValue_def)
next
  case False
  show ?thesis
  proof (cases "inGrid (setValue sh r c v) p")
    case True
    with False show ?thesis
      by (simp add: cellAt_def[of "setValue sh r c v"]) (simp add: setValue_def)
  next
    case out: False
    then have "\<not> inGrid sh p"
      unfolding inGrid_setValue by (auto simp: inGrid_def)
    with out False show ?thesis by (simp add: cellAt_def)
  qed
qed

lemma maxRows_setValue: "maxRows (setValue sh r c v) = max (maxRows sh) r"
  by (simp add: setValue_def)

lemma cellAt_setRowValues:
  assumes "1 \<le> r"
  shows "1 \<le> c \<Longrightarrow> cellAt (setRowValues sh r c vs) p =
     (if fst p = r \<and> c \<le> snd p \<and> snd p < c + length vs then textCell (vs ! (snd p - c))
      else cellAt sh p)"
proof (induction vs arbitrary: sh c)
  case Nil
  then show ?case by auto
next
  case (Cons v vs)
  have IH: "cellAt (setRowValues (setValue sh r c v) r (Suc c) vs) p =
     (if fst p = r \<and> Suc c \<le> snd p \<and> snd p < Suc c + length vs
      then textCell (vs ! (snd p - Suc c)) else cellAt (setValue sh r c v) p)"
    by (rule Cons.IH) simp
  have sv: "cellAt (setValue sh r c v) p = (if p = (r, c) then textCell v else cellAt sh p)"
    using assms Cons.prems by (rule cellAt_setValue)
  consider (tail) "fst p = r" "Suc c \<le> snd p" "snd p < Suc c + length vs"
    | (head) "p = (r, c)"
    | (other) "\<not> (fst p = r \<and> c \<le> snd p \<and> snd p < c + length (v # vs))"
    by (cases p) (simp, metis Suc_leI le_neq_implies_less)
  then show ?case
  proof cases
    case tail
    then have "snd p - c = Suc (snd p - Suc c)" by auto
    with tail IH show ?thesis by simp
  next
    case head
    with IH sv show ?thesis by simp
  next
    case other
    then have ne: "p \<noteq> (r, c)" by auto
    from other have nt: "\<not> (fst p = r \<and> Suc c \<le> snd p \<and> snd p < Suc c + length vs)"
      by auto
    have 1: "cellAt (setRowValues (setValue sh r c v) r (Suc c) vs) p = cellAt (setValue sh r c v) p"
      using IH nt by (simp only: if_False)
    have 2: "cellAt (setValue sh r c v) p = cellAt sh p"
      using sv ne by (simp only: if_False)
    show ?thesis
      unfolding setRowValues.simps 1 2 using other by (simp only: if_False)
  qed
qed

lemma maxRows_setRowValues:
  "maxRows (setRowValues sh r c vs) = (if vs = [] then maxRows sh else max (maxRows sh) r)"
  by (induction vs arbitrary: sh c) (auto simp: maxRows_setValue)

lemma cellAt_insertColumnsAfter:
  "cellAt (insertColumnsAfter sh k n) (r, c) =
     (if c \<le> k then cellAt sh (r, c) else if c \<le> k + n then blank else cellAt sh (r, c - n))"
proof (cases "inGrid (insertColumnsAfter sh k n) (r, c)")
  case True
  then show ?thesis
    by (simp add: cellAt_def[of "insertColumnsAfter sh k n"]) (simp add: insertColumnsAfter_def)
next
  case False
  then have out: "\<not> (1 \<le> r \<and> r \<le> maxRows sh \<and> 1 \<le> c \<and> c \<le> maxCols sh + n)"
    by (simp add: inGrid_def insertColumnsAfter_def)
  have a: "c \<le> k \<Longrightarrow> cellAt sh (r, c) = blank"
    using out by (intro cellAt_outside) (auto simp: inGrid_def)
  have b: "\<not> c \<le> k + n \<Longrightarrow> cellAt sh (r, c - n) = blank"
    using out by (intro cellAt_outside) (auto simp: inGrid_def)
  from False a b show ?thesis by (simp add: cellAt_def[of "insertColumnsAfter sh k n"])
qed

lemma maxRows_insertColumnsAfter: "maxRows (insertColumnsAfter sh k n) = maxRows sh"
  by (simp add: insertColumnsAfter_def)

lemma cellAt_insertColumnsAfter_end:
  assumes "getLastColumn sh \<le> k"
  shows "cellAt (insertColumnsAfter sh k n) p = cellAt sh p"
proof (cases p)
  case (Pair r c)
  have "k < c \<Longrightarrow> cellAt sh (r, c) = blank"
    using assms by (intro beyond_lastColumn) simp
  moreover have "\<not> c \<le> k + n \<Longrightarrow> cellAt sh (r, c - n) = blank"
    using assms by (intro beyond_lastColumn) simp
  ultimately show ?thesis
    unfolding Pair cellAt_insertColumnsAfter by auto
qed

lemma cellAt_insertSheet: "cellAt (insertSheet h) p = blank"
  by (simp add: cellAt_def insertSheet_def)

lemma ensureSheet_eq:
  "ensureSheet h w name header =
     (case sheets w name of
        None \<Rightarrow> w\<lparr>sheets := (sheets w)(name \<mapsto> freshSheet h header)\<rparr>
      | Some sh \<Rightarrow> if missingOf sh header \<noteq> []
                   then w\<lparr>sheets := (sheets w)(name \<mapsto> grownSheet sh header)\<rparr> else w)"
proof -
  have m: "filter (\<lambda>h. indexOf (getHeaders sh) (Str h) = None) header = missingOf sh header" for sh
    by (simp add: missingOf_def indexOf_None_iff)
  have e: "missingOf sh [] = []" for sh by (simp add: missingOf_def)
  show ?thesis
    unfolding ensureSheet_def Let_def m freshSheet_def grownSheet_def
    by (auto split: option.splits simp: e)
qed

lemma cellAt_freshSheet:
  "cellAt (freshSheet h header) p =
     (if fst p = 1 \<and> 1 \<le> snd p \<and> snd p \<le> length header then textCell (header ! (snd p - 1))
      else blank)"
proof (cases "header = []")
  case True
  then show ?thesis by (auto simp: freshSheet_def cellAt_insertSheet)
next
  case False
  have "cellAt (setRowValues (insertSheet h) 1 1 header) p =
     (if fst p = 1 \<and> 1 \<le> snd p \<and> snd p < 1 + length header then textCell (header ! (snd p - 1))
      else cellAt (insertSheet h) p)"
    by (rule cellAt_setRowValues) simp_all
  with False show ?thesis
    by (simp add: freshSheet_def cellAt_insertSheet less_Suc_eq_le)
qed

lemma cellAt_grownSheet:
  "cellAt (grownSheet sh header) p =
     (if fst p = 1 \<and> length (getHeaders sh) < snd p \<and>
         snd p \<le> length (getHeaders sh) + length (missingOf sh header)
      then textCell (missingOf sh header ! (snd p - length (getHeaders sh) - 1))
      else cellAt sh p)"
proof (cases "missingOf sh header = []")
  case True
  then show ?thesis by (auto simp: grownSheet_def)
next
  case False
  let ?k = "length (getHeaders sh)"
  let ?m = "missingOf sh header"
  have "cellAt (setRowValues (insertColumnsAfter sh ?k (length ?m)) 1 (?k + 1) ?m) p =
     (if fst p = 1 \<and> ?k + 1 \<le> snd p \<and> snd p < ?k + 1 + length ?m
      then textCell (?m ! (snd p - (?k + 1)))
      else cellAt (insertColumnsAfter sh ?k (length ?m)) p)"
    by (rule cellAt_setRowValues) simp_all
  moreover have "cellAt (insertColumnsAfter sh ?k (length ?m)) p = cellAt sh p"
    by (rule cellAt_insertColumnsAfter_end) (simp add: length_getHeaders)
  ultimately show ?thesis using False
    by (auto simp: grownSheet_def)
qed

subsection \<open>The sparse row write\<close>

lemma indexOf_inj: "indexOf hs h = Some i \<Longrightarrow> indexOf hs h' = Some i \<Longrightarrow> h = h'"
proof -
  assume "indexOf hs h = Some i" "indexOf hs h' = Some i"
  then have "hs ! i = h" "hs ! i = h'"
    using indexOf_SomeD[of hs h i] indexOf_SomeD[of hs h' i] by simp_all
  then show "h = h'" by simp
qed

lemma writeRecord_Nil: "writeRecord sh hs r [] = sh"
  by (simp add: writeRecord_def)

lemma writeRecord_Cons:
  "writeRecord sh hs r ((h, v) # obj) =
     writeRecord (case indexOf hs (Str h) of None \<Rightarrow> sh | Some col \<Rightarrow> setValue sh r (col + 1) v) hs r obj"
  by (simp add: writeRecord_def)

lemma writeRecord_frame:
  assumes "1 \<le> r"
  shows "\<not> (\<exists>h i. h \<in> fst ` set obj \<and> indexOf hs (Str h) = Some i \<and> p = (r, Suc i)) \<Longrightarrow>
     cellAt (writeRecord sh hs r obj) p = cellAt sh p"
proof (induction obj arbitrary: sh)
  case Nil
  then show ?case by (simp add: writeRecord_Nil)
next
  case (Cons kv obj)
  obtain h v where kv: "kv = (h, v)" by (cases kv)
  have rest: "\<not> (\<exists>h i. h \<in> fst ` set obj \<and> indexOf hs (Str h) = Some i \<and> p = (r, Suc i))"
    using Cons.prems by auto
  show ?case
  proof (cases "indexOf hs (Str h)")
    case None
    with Cons.IH[OF rest] show ?thesis by (simp add: kv writeRecord_Cons)
  next
    case (Some col)
    then have "p \<noteq> (r, Suc col)" using Cons.prems kv by auto
    then have "cellAt (setValue sh r (col + 1) v) p = cellAt sh p"
      using assms by (simp add: cellAt_setValue)
    with Cons.IH[OF rest, of "setValue sh r (col + 1) v"] Some show ?thesis
      by (simp add: kv writeRecord_Cons)
  qed
qed

lemma writeRecord_hit:
  assumes "1 \<le> r"
  shows "distinct (map fst obj) \<Longrightarrow> (h, v) \<in> set obj \<Longrightarrow> indexOf hs (Str h) = Some i \<Longrightarrow>
     cellAt (writeRecord sh hs r obj) (r, Suc i) = textCell v"
proof (induction obj arbitrary: sh)
  case Nil
  then show ?case by simp
next
  case (Cons kv obj)
  obtain h' v' where kv: "kv = (h', v')" by (cases kv)
  show ?case
  proof (cases "h' = h")
    case True
    with Cons.prems kv have v: "v' = v" and notin: "h \<notin> fst ` set obj"
      by (auto simp: image_iff) 
    have "\<not> (\<exists>k j. k \<in> fst ` set obj \<and> indexOf hs (Str k) = Some j \<and> (r, Suc i) = (r, Suc j))"
    proof
      assume "\<exists>k j. k \<in> fst ` set obj \<and> indexOf hs (Str k) = Some j \<and> (r, Suc i) = (r, Suc j)"
      then obtain k where k: "k \<in> fst ` set obj" "indexOf hs (Str k) = Some i" by auto
      from k(2) Cons.prems(3) have "Str k = Str h" by (rule indexOf_inj)
      with k(1) notin show False by simp
    qed
    then have "cellAt (writeRecord (setValue sh r (i + 1) v) hs r obj) (r, Suc i) =
        cellAt (setValue sh r (i + 1) v) (r, Suc i)"
      using assms by (intro writeRecord_frame)
    also have "\<dots> = textCell v"
      using assms by (simp add: cellAt_setValue)
    finally show ?thesis
      using True v Cons.prems(3) by (simp add: kv writeRecord_Cons)
  next
    case False
    with Cons.prems kv have "(h, v) \<in> set obj" "distinct (map fst obj)" by auto
    then have "cellAt (writeRecord sh' hs r obj) (r, Suc i) = textCell v" for sh'
      using Cons.IH Cons.prems(3) by blast
    then show ?thesis by (simp add: kv writeRecord_Cons)
  qed
qed

lemma scanUp_ge_2: "2 \<le> scanUp cv n"
  by (induction n) simp_all

lemma nextFree_ge_2:
  assumes "nextFreeRowByHeader sh key = Inr r"
  shows "2 \<le> r"
proof (cases "indexOf (getHeaders sh) (Str key)")
  case None
  with assms show ?thesis by (simp add: nextFreeRowByHeader_def)
next
  case (Some idx)
  show ?thesis
  proof (cases "maxRows sh - 1 = 0")
    case True
    with Some assms show ?thesis by (simp add: nextFreeRowByHeader_def)
  next
    case False
    with Some assms have "r = scanUp (getDisplayValues sh 2 (idx + 1) (maxRows sh - 1) 1)
        (length (getDisplayValues sh 2 (idx + 1) (maxRows sh - 1) 1))"
      by (simp add: nextFreeRowByHeader_def Let_def)
    then show ?thesis by (simp only: scanUp_ge_2)
  qed
qed

lemma nextFree_Inr_iff: "(\<exists>r. nextFreeRowByHeader sh key = Inr r) \<longleftrightarrow> Str key \<in> set (getHeaders sh)"
proof (cases "indexOf (getHeaders sh) (Str key)")
  case None
  then have "Str key \<notin> set (getHeaders sh)" by (simp add: indexOf_None_iff)
  with None show ?thesis by (simp add: nextFreeRowByHeader_def)
next
  case (Some idx)
  then have "Str key \<in> set (getHeaders sh)"
    using indexOf_None_iff[of "getHeaders sh" "Str key"] by auto
  moreover have "\<exists>r. nextFreeRowByHeader sh key = Inr r"
    using Some by (cases "maxRows sh - 1 = 0") (simp_all add: nextFreeRowByHeader_def Let_def)
  ultimately show ?thesis by simp
qed

lemma nextFree_Inl:
  "Str key \<notin> set (getHeaders sh) \<Longrightarrow>
   nextFreeRowByHeader sh key = Inl (Error (''Key header not found: '' @ key))"
proof -
  assume "Str key \<notin> set (getHeaders sh)"
  then have "indexOf (getHeaders sh) (Str key) = None" by (simp add: indexOf_None_iff)
  then show ?thesis by (simp add: nextFreeRowByHeader_def)
qed

lemma appendRowAtKey_eq:
  "sheets w name = Some sh \<Longrightarrow> nextFreeRowByHeader sh key = Inr r \<Longrightarrow>
   appendRowAtKey w name key obj =
     Inr (w\<lparr>sheets := (sheets w)(name \<mapsto> writeRecord sh (getHeaders sh) r obj)\<rparr>)"
  by (simp add: appendRowAtKey_def)

lemma appendRowAtKey_error:
  "appendRowAtKey w name key obj = Inl e \<longleftrightarrow>
     (sheets w name = None \<and> e = Error (''Missing sheet: '' @ name)) \<or>
     (\<exists>sh. sheets w name = Some sh \<and> Str key \<notin> set (getHeaders sh) \<and>
           e = Error (''Key header not found: '' @ key))"
proof (cases "sheets w name")
  case None
  then show ?thesis by (simp add: appendRowAtKey_def) blast
next
  case (Some sh)
  show ?thesis
  proof (cases "Str key \<in> set (getHeaders sh)")
    case True
    then obtain r where "nextFreeRowByHeader sh key = Inr r"
      using nextFree_Inr_iff by blast
    with Some True show ?thesis by (simp add: appendRowAtKey_def)
  next
    case False
    then have "nextFreeRowByHeader sh key = Inl (Error (''Key header not found: '' @ key))"
      by (rule nextFree_Inl)
    with Some False show ?thesis by (simp add: appendRowAtKey_def) blast
  qed
qed

text \<open>
  Claim C4. When \<open>appendRowAtKey_\<close> finds the sheet and the key column, it returns
  normally whatever the keys of the record are, and the row it allocated changes in
  exactly the cells of the keys that occur in the header row: the cell in the first column
  named \<open>h\<close> holds the value of \<open>h\<close>, and every cell that is not in the allocated row under
  a key of the record is as it was, in this row and in every other. A key that is not in
  the header row changes nothing. The keys of an object are distinct.
\<close>

theorem appendRowAtKey_sparse:
  assumes "sheets w name = Some sh" and "nextFreeRowByHeader sh key = Inr r"
    and "distinct (map fst obj)"
  shows "\<exists>sh'. appendRowAtKey w name key obj = Inr (w\<lparr>sheets := (sheets w)(name \<mapsto> sh')\<rparr>) \<and>
     (\<forall>h v i. (h, v) \<in> set obj \<and> indexOf (getHeaders sh) (Str h) = Some i \<longrightarrow>
         cellAt sh' (r, Suc i) = textCell v) \<and>
     (\<forall>p. \<not> (\<exists>h i. h \<in> fst ` set obj \<and> indexOf (getHeaders sh) (Str h) = Some i \<and> p = (r, Suc i)) \<longrightarrow>
         cellAt sh' p = cellAt sh p)"
proof -
  from assms(2) have r: "1 \<le> r" using nextFree_ge_2 by fastforce
  let ?sh' = "writeRecord sh (getHeaders sh) r obj"
  have "appendRowAtKey w name key obj = Inr (w\<lparr>sheets := (sheets w)(name \<mapsto> ?sh')\<rparr>)"
    using assms(1,2) by (rule appendRowAtKey_eq)
  moreover have "\<forall>h v i. (h, v) \<in> set obj \<and> indexOf (getHeaders sh) (Str h) = Some i \<longrightarrow>
         cellAt ?sh' (r, Suc i) = textCell v"
    using writeRecord_hit[OF r assms(3)] by blast
  moreover have "\<forall>p. \<not> (\<exists>h i. h \<in> fst ` set obj \<and> indexOf (getHeaders sh) (Str h) = Some i \<and> p = (r, Suc i)) \<longrightarrow>
         cellAt ?sh' p = cellAt sh p"
    using writeRecord_frame[OF r] by blast
  ultimately show ?thesis by blast
qed

theorem appendRowAtKey_sparse_witness:
  "sheets exTable ''T'' = Some exSheet \<and> nextFreeRowByHeader exSheet ''ID'' = Inr 4 \<and>
   distinct (map fst exRecord) \<and>
   (\<exists>sh'. appendRowAtKey exTable ''T'' ''ID'' exRecord =
            Inr (exTable\<lparr>sheets := (sheets exTable)(''T'' \<mapsto> sh')\<rparr>) \<and>
      cellAt sh' (4, 2) = textCell ''Ada'' \<and>
      cellAt sh' (4, 1) = cellAt exSheet (4, 1) \<and>
      cellAt sh' (3, 1) = cellAt exSheet (3, 1) \<and>
      cellAt sh' (5, 2) = cellAt exSheet (5, 2))"
proof -
  have a: "sheets exTable ''T'' = Some exSheet" by (simp add: exTable_def)
  have b: "nextFreeRowByHeader exSheet ''ID'' = Inr 4" by (rule exSheet_next_ID)
  have c: "distinct (map fst exRecord)" by (simp add: exRecord_def)
  have i1: "indexOf (getHeaders exSheet) (Str ''Name'') = Some 1"
    and i2: "indexOf (getHeaders exSheet) (Str ''Colour'') = None"
    by (simp_all add: exSheet_headers)
  have keys: "h \<in> fst ` set exRecord \<Longrightarrow> indexOf (getHeaders exSheet) (Str h) = Some i \<Longrightarrow> i = 1" for h i
    using i1 i2 by (auto simp: exRecord_def)
  from appendRowAtKey_sparse[OF a b c] obtain sh' where
    res: "appendRowAtKey exTable ''T'' ''ID'' exRecord =
            Inr (exTable\<lparr>sheets := (sheets exTable)(''T'' \<mapsto> sh')\<rparr>)"
    and hit: "\<forall>h v i. (h, v) \<in> set exRecord \<and> indexOf (getHeaders exSheet) (Str h) = Some i \<longrightarrow>
         cellAt sh' (4, Suc i) = textCell v"
    and frame: "\<forall>p. \<not> (\<exists>h i. h \<in> fst ` set exRecord \<and> indexOf (getHeaders exSheet) (Str h) = Some i \<and>
         p = (4, Suc i)) \<longrightarrow> cellAt sh' p = cellAt exSheet p"
    by blast
  have m: "(''Name'', ''Ada'') \<in> set exRecord" by (simp add: exRecord_def)
  from hit m i1 have h1: "cellAt sh' (4, Suc 1) = textCell ''Ada''" by blast
  have n1: "\<not> (\<exists>h i. h \<in> fst ` set exRecord \<and> indexOf (getHeaders exSheet) (Str h) = Some i \<and>
         (4 :: nat, 1 :: nat) = (4, Suc i))"
  proof
    assume "\<exists>h i. h \<in> fst ` set exRecord \<and> indexOf (getHeaders exSheet) (Str h) = Some i \<and>
         (4 :: nat, 1 :: nat) = (4, Suc i)"
    then obtain h i where "h \<in> fst ` set exRecord" "indexOf (getHeaders exSheet) (Str h) = Some i" "i = 0"
      by auto
    with keys[of h i] show False by simp
  qed
  have n2: "\<not> (\<exists>h i. h \<in> fst ` set exRecord \<and> indexOf (getHeaders exSheet) (Str h) = Some i \<and>
         (3 :: nat, 1 :: nat) = (4, Suc i))"
    by simp
  have n3: "\<not> (\<exists>h i. h \<in> fst ` set exRecord \<and> indexOf (getHeaders exSheet) (Str h) = Some i \<and>
         (5 :: nat, 2 :: nat) = (4, Suc i))"
    by simp
  from frame n1 have f1: "cellAt sh' (4, 1) = cellAt exSheet (4, 1)" by blast
  from frame n2 have f2: "cellAt sh' (3, 1) = cellAt exSheet (3, 1)" by blast
  from frame n3 have f3: "cellAt sh' (5, 2) = cellAt exSheet (5, 2)" by blast
  from h1 have h1': "cellAt sh' (4, 2) = textCell ''Ada''" by (simp add: numeral_2_eq_2)
  from a b c res h1' f1 f2 f3 show ?thesis by blast
qed

subsection \<open>Creating and repairing the header\<close>

lemma textCell_blank_iff: "textCell v = blank \<longleftrightarrow> v = []"
  by (simp add: textCell_def blank_def)

lemma cval_textCell: "cval (textCell v) = Str v"
  by (simp add: textCell_def)

lemma cval_nonempty_content: "cval c \<noteq> Str [] \<Longrightarrow> c \<noteq> blank"
  by (auto simp: blank_def)

lemma header_cell_member:
  assumes "cval (cellAt sh (1, c)) = x" and "x \<noteq> Str []"
  shows "x \<in> set (getHeaders sh)"
proof -
  have ne: "cellAt sh (1, c) \<noteq> blank"
    using assms by (intro cval_nonempty_content) simp
  then have "c \<le> getLastColumn sh" by (rule content_le_lastColumn)
  moreover from ne have "inGrid sh (1, c)" by (rule content_inGrid)
  then have "1 \<le> c" by (simp add: inGrid_def)
  ultimately have "c - 1 < length (getHeaders sh)" and "Suc (c - 1) = c"
    by (simp_all add: length_getHeaders)
  then have "getHeaders sh ! (c - 1) = cval (cellAt sh (1, c))" and "c - 1 < length (getHeaders sh)"
    using getHeaders_nth[of "c - 1" sh] by simp_all
  with assms(1) show ?thesis by (metis nth_mem)
qed

lemma header_memberD:
  assumes "x \<in> set (getHeaders sh)"
  shows "\<exists>c. 1 \<le> c \<and> c \<le> length (getHeaders sh) \<and> cval (cellAt sh (1, c)) = x"
proof -
  from assms obtain i where "i < length (getHeaders sh)" "getHeaders sh ! i = x"
    by (auto simp: in_set_conv_nth)
  then have "1 \<le> Suc i \<and> Suc i \<le> length (getHeaders sh) \<and> cval (cellAt sh (1, Suc i)) = x"
    by (simp add: getHeaders_nth)
  then show ?thesis by blast
qed

subsubsection \<open>The header of a new sheet\<close>

lemma fresh_member:
  assumes "x \<in> set header" and "x \<noteq> []"
  shows "Str x \<in> set (getHeaders (freshSheet h header))"
proof -
  from assms(1) obtain i where i: "i < length header" "header ! i = x"
    by (auto simp: in_set_conv_nth)
  then have "cellAt (freshSheet h header) (1, Suc i) = textCell x"
    by (simp add: cellAt_freshSheet)
  then have "cval (cellAt (freshSheet h header) (1, Suc i)) = Str x"
    by (simp add: cval_textCell)
  then show ?thesis using assms(2) by (intro header_cell_member) simp_all
qed

lemma fresh_lastColumn:
  assumes "header \<noteq> []" and "last header \<noteq> []"
  shows "getLastColumn (freshSheet h header) = length header"
proof (rule getLastColumn_eqI)
  fix r c assume "length header < c"
  then show "cellAt (freshSheet h header) (r, c) = blank"
    by (simp add: cellAt_freshSheet)
next
  have "cellAt (freshSheet h header) (1, length header) = textCell (header ! (length header - 1))"
    using assms(1) by (simp add: cellAt_freshSheet Suc_leI)
  also have "header ! (length header - 1) = last header"
    using assms(1) by (simp add: last_conv_nth)
  finally have "cellAt (freshSheet h header) (1, length header) \<noteq> blank"
    using assms(2) by (simp add: textCell_blank_iff)
  then show "length header = 0 \<or> (\<exists>r. cellAt (freshSheet h header) (r, length header) \<noteq> blank)"
    by blast
qed

lemma fresh_headers:
  assumes "header \<noteq> []" and "last header \<noteq> []"
  shows "getHeaders (freshSheet h header) = map Str header"
proof (rule nth_equalityI)
  have "1 \<le> length header" using assms(1) by (cases header) simp_all
  then show len: "length (getHeaders (freshSheet h header)) = length (map Str header)"
    using assms by (simp add: length_getHeaders fresh_lastColumn max_def)
  fix i assume "i < length (getHeaders (freshSheet h header))"
  then show "getHeaders (freshSheet h header) ! i = map Str header ! i"
    using len by (simp add: getHeaders_nth cellAt_freshSheet cval_textCell)
qed

lemma fresh_data_blank: "r \<noteq> 1 \<Longrightarrow> cellAt (freshSheet h header) (r, c) = blank"
  by (simp add: cellAt_freshSheet)

subsubsection \<open>The header of a sheet that gains columns\<close>

lemma grown_old_cells:
  "snd p \<le> length (getHeaders sh) \<Longrightarrow> cellAt (grownSheet sh header) p = cellAt sh p"
  by (simp add: cellAt_grownSheet)

lemma grown_data_rows:
  "fst p \<noteq> 1 \<Longrightarrow> cellAt (grownSheet sh header) p = cellAt sh p"
  by (simp add: cellAt_grownSheet)

lemma grown_new_cells:
  assumes "i < length (missingOf sh header)"
  shows "cellAt (grownSheet sh header) (1, length (getHeaders sh) + 1 + i) =
     textCell (missingOf sh header ! i)"
  using assms by (simp add: cellAt_grownSheet)

lemma grown_beyond:
  assumes "length (getHeaders sh) + length (missingOf sh header) < c"
  shows "cellAt (grownSheet sh header) (r, c) = blank"
proof -
  from assms have "length (getHeaders sh) < c" by simp
  then have "cellAt sh (r, c) = blank" by (rule beyond_headers)
  with assms show ?thesis by (simp add: cellAt_grownSheet)
qed

lemma grown_member_old:
  assumes "x \<in> set (getHeaders sh)" and "x \<noteq> Str []"
  shows "x \<in> set (getHeaders (grownSheet sh header))"
proof -
  from header_memberD[OF assms(1)] obtain c where
    c: "c \<le> length (getHeaders sh)" "cval (cellAt sh (1, c)) = x"
    by blast
  then have "cval (cellAt (grownSheet sh header) (1, c)) = x"
    by (simp add: grown_old_cells)
  then show ?thesis using assms(2) by (rule header_cell_member)
qed

lemma grown_member_new:
  assumes "x \<in> set header" and "x \<noteq> []"
  shows "Str x \<in> set (getHeaders (grownSheet sh header))"
proof (cases "Str x \<in> set (getHeaders sh)")
  case True
  then show ?thesis using assms(2) by (intro grown_member_old) simp_all
next
  case False
  with assms(1) have "x \<in> set (missingOf sh header)" by (simp add: missingOf_def)
  then obtain i where i: "i < length (missingOf sh header)" "missingOf sh header ! i = x"
    by (auto simp: in_set_conv_nth)
  then have "cval (cellAt (grownSheet sh header) (1, length (getHeaders sh) + 1 + i)) = Str x"
    by (simp only: grown_new_cells cval_textCell)
  then show ?thesis using assms(2) by (intro header_cell_member) simp_all
qed

lemma grown_lastColumn:
  assumes "missingOf sh header \<noteq> []" and "last (missingOf sh header) \<noteq> []"
  shows "getLastColumn (grownSheet sh header) =
     length (getHeaders sh) + length (missingOf sh header)"
proof (rule getLastColumn_eqI)
  fix r c assume "length (getHeaders sh) + length (missingOf sh header) < c"
  then show "cellAt (grownSheet sh header) (r, c) = blank" by (rule grown_beyond)
next
  let ?m = "missingOf sh header"
  have lt: "length ?m - 1 < length ?m" using assms(1) by simp
  have a: "cellAt (grownSheet sh header) (1, length (getHeaders sh) + 1 + (length ?m - 1)) =
      textCell (?m ! (length ?m - 1))"
    using lt by (rule grown_new_cells)
  have b: "?m ! (length ?m - 1) = last ?m" using assms(1) by (simp add: last_conv_nth)
  have c: "length (getHeaders sh) + 1 + (length ?m - 1) = length (getHeaders sh) + length ?m"
    using assms(1) by (cases ?m) simp_all
  from a have "cellAt (grownSheet sh header) (1, length (getHeaders sh) + length ?m) =
      textCell (last ?m)"
    unfolding b c .
  then have "cellAt (grownSheet sh header) (1, length (getHeaders sh) + length ?m) \<noteq> blank"
    using assms(2) by (simp add: textCell_blank_iff)
  then show "length (getHeaders sh) + length ?m = 0 \<or>
      (\<exists>r. cellAt (grownSheet sh header) (r, length (getHeaders sh) + length ?m) \<noteq> blank)"
    by blast
qed

lemma grown_headers:
  assumes "missingOf sh header \<noteq> []" and "last (missingOf sh header) \<noteq> []"
  shows "getHeaders (grownSheet sh header) = getHeaders sh @ map Str (missingOf sh header)"
proof (rule nth_equalityI)
  let ?k = "length (getHeaders sh)"
  let ?m = "missingOf sh header"
  have "1 \<le> length ?m" using assms(1) by (cases ?m) simp_all
  then show len: "length (getHeaders (grownSheet sh header)) = length (getHeaders sh @ map Str ?m)"
    using assms by (simp add: length_getHeaders[of "grownSheet sh header"] grown_lastColumn max_def)
  fix i assume i: "i < length (getHeaders (grownSheet sh header))"
  show "getHeaders (grownSheet sh header) ! i = (getHeaders sh @ map Str ?m) ! i"
  proof (cases "i < ?k")
    case True
    then have "cellAt (grownSheet sh header) (1, Suc i) = cellAt sh (1, Suc i)"
      by (intro grown_old_cells) simp
    with True i show ?thesis by (simp add: getHeaders_nth nth_append)
  next
    case False
    then have j: "i - ?k < length ?m" using i len by simp
    have "cellAt (grownSheet sh header) (1, ?k + 1 + (i - ?k)) = textCell (?m ! (i - ?k))"
      using j by (rule grown_new_cells)
    moreover have "?k + 1 + (i - ?k) = Suc i" using False by simp
    ultimately show ?thesis using False i j
      by (simp add: getHeaders_nth nth_append cval_textCell)
  qed
qed

lemma missing_all_blank_same_cells:
  assumes "set (missingOf sh header) \<subseteq> {[]}"
  shows "cellAt (grownSheet sh header) p = cellAt sh p"
proof (cases "fst p = 1 \<and> length (getHeaders sh) < snd p \<and>
         snd p \<le> length (getHeaders sh) + length (missingOf sh header)")
  case True
  then have "snd p - length (getHeaders sh) - 1 < length (missingOf sh header)" by auto
  then have "missingOf sh header ! (snd p - length (getHeaders sh) - 1) \<in> set (missingOf sh header)"
    by (rule nth_mem)
  with assms have "missingOf sh header ! (snd p - length (getHeaders sh) - 1) = []" by auto
  moreover have "cellAt sh p = blank"
    using True beyond_headers[of sh "snd p" "fst p"] by (cases p) simp
  ultimately show ?thesis using True
    by (simp add: cellAt_grownSheet textCell_blank_iff[THEN iffD2])
next
  case False
  then show ?thesis unfolding cellAt_grownSheet by (simp only: if_False)
qed

subsubsection \<open>The sheet after \<open>ensureSheet_\<close>\<close>

lemma ensureSheet_sheet: "sheets (ensureSheet h w name header) name = Some (ensured h w name header)"
  by (auto simp: ensureSheet_eq ensured_def split: option.splits)

lemma ensureSheet_others: "n \<noteq> name \<Longrightarrow> sheets (ensureSheet h w name header) n = sheets w n"
  by (auto simp: ensureSheet_eq split: option.splits)

lemma ensureSheet_props: "props (ensureSheet h w name header) = props w"
  by (auto simp: ensureSheet_eq split: option.splits)

lemma ensureSheet_tick: "tick (ensureSheet h w name header) = tick w"
  by (auto simp: ensureSheet_eq split: option.splits)

lemma ensured_member:
  assumes "x \<in> set header" and "x \<noteq> []"
  shows "Str x \<in> set (getHeaders (ensured h w name header))"
proof (cases "sheets w name")
  case None
  with assms show ?thesis by (simp add: ensured_def fresh_member)
next
  case (Some sh)
  show ?thesis
  proof (cases "missingOf sh header = []")
    case True
    then have "Str x \<in> set (getHeaders sh)"
      using assms(1) by (auto simp: missingOf_def filter_empty_conv)
    with True Some show ?thesis by (simp add: ensured_def)
  next
    case False
    with Some assms show ?thesis by (simp add: ensured_def grown_member_new)
  qed
qed

lemma ensureSheet_satisfied:
  assumes "sheets w name = Some sh" and "Str ` set header \<subseteq> set (getHeaders sh)"
  shows "ensureSheet h w name header = w"
proof -
  from assms(2) have "missingOf sh header = []"
    by (auto simp: missingOf_def filter_empty_conv)
  with assms(1) show ?thesis by (simp add: ensureSheet_eq)
qed

lemma missing_after_ensure:
  "set (missingOf (ensured h w name header) header) \<subseteq> {[]}"
proof
  fix x assume "x \<in> set (missingOf (ensured h w name header) header)"
  then have x: "x \<in> set header" "Str x \<notin> set (getHeaders (ensured h w name header))"
    by (simp_all add: missingOf_def)
  then have "x = []" using ensured_member by blast
  then show "x \<in> {[]}" by simp
qed

lemma ensured_twice:
  "ensured h (ensureSheet h w name H1) name H2 = grownSheet (ensured h w name H1) H2"
  by (simp add: ensured_def[of h "ensureSheet h w name H1"] ensureSheet_sheet grownSheet_def)

text \<open>
  Claim C3. A second call of \<open>ensureSheet_\<close> with the same name and header leaves the
  header row as the first call left it, and every cell with it, so no column is
  duplicated; when no name of the header is the empty string the whole document is as it
  was. The function has no failing case. (An empty name in the header is never found, so
  each call adds a blank column for it; the cells and the header row stay the same.)
\<close>

theorem ensureSheet_idempotent:
  "\<exists>sh1 sh2. sheets (ensureSheet h w name H) name = Some sh1 \<and>
     sheets (ensureSheet h (ensureSheet h w name H) name H) name = Some sh2 \<and>
     getHeaders sh2 = getHeaders sh1 \<and> (\<forall>p. cellAt sh2 p = cellAt sh1 p) \<and>
     ([] \<notin> set H \<longrightarrow>
        ensureSheet h (ensureSheet h w name H) name H = ensureSheet h w name H)"
proof -
  let ?w1 = "ensureSheet h w name H"
  let ?sh1 = "ensured h w name H"
  let ?sh2 = "ensured h ?w1 name H"
  have s1: "sheets ?w1 name = Some ?sh1" by (rule ensureSheet_sheet)
  have s2: "sheets (ensureSheet h ?w1 name H) name = Some ?sh2" by (rule ensureSheet_sheet)
  have blanks: "set (missingOf ?sh1 H) \<subseteq> {[]}" by (rule missing_after_ensure)
  have cells: "cellAt ?sh2 p = cellAt ?sh1 p" for p
    unfolding ensured_twice using blanks by (rule missing_all_blank_same_cells)
  then have hdr: "getHeaders ?sh2 = getHeaders ?sh1" by (rule getHeaders_cong)
  have same: "ensureSheet h ?w1 name H = ?w1" if "[] \<notin> set H"
  proof -
    have "x \<notin> set (missingOf ?sh1 H)" for x
    proof
      assume x: "x \<in> set (missingOf ?sh1 H)"
      then have "x \<in> set H" by (simp add: missingOf_def)
      moreover from x blanks have "x = []" by auto
      ultimately show False using that by simp
    qed
    then have "missingOf ?sh1 H = []" by (cases "missingOf ?sh1 H") auto
    with s1 show ?thesis by (simp add: ensureSheet_eq[of h ?w1])
  qed
  show ?thesis
  proof (rule exI[of _ ?sh1], rule exI[of _ ?sh2], intro conjI allI impI)
    show "sheets ?w1 name = Some ?sh1" by (rule s1)
    show "sheets (ensureSheet h ?w1 name H) name = Some ?sh2" by (rule s2)
    show "getHeaders ?sh2 = getHeaders ?sh1" by (rule hdr)
    show "cellAt ?sh2 p = cellAt ?sh1 p" for p by (rule cells)
    show "ensureSheet h ?w1 name H = ?w1" if "[] \<notin> set H" using that by (rule same)
  qed
qed

theorem ensureSheet_idempotent_witness:
  "[] \<notin> set (HEADERS SH_BATCHES) \<and>
   ensureSheet exHost (ensureSheet exHost exWorld SH_BATCHES (HEADERS SH_BATCHES)) SH_BATCHES
       (HEADERS SH_BATCHES) =
     ensureSheet exHost exWorld SH_BATCHES (HEADERS SH_BATCHES)"
proof -
  have a: "[] \<notin> set (HEADERS SH_BATCHES)" by (simp add: HEADERS_def)
  from ensureSheet_idempotent[of exHost exWorld SH_BATCHES "HEADERS SH_BATCHES"]
  have "[] \<notin> set (HEADERS SH_BATCHES) \<longrightarrow>
      ensureSheet exHost (ensureSheet exHost exWorld SH_BATCHES (HEADERS SH_BATCHES)) SH_BATCHES
         (HEADERS SH_BATCHES) = ensureSheet exHost exWorld SH_BATCHES (HEADERS SH_BATCHES)"
    by (elim exE conjE)
  with a show ?thesis by simp
qed

text \<open>
  Claim C2. After a call of \<open>ensureSheet_\<close> for a name, a further call with a header \<open>H2\<close>
  keeps every cell of the header row up to its last column, writes the names of \<open>H2\<close> that
  are not in the header row, in the order of \<open>H2\<close>, into the cells right after the last
  column, leaves the header row blank beyond them, changes no cell of any other row and
  no other sheet. When no name of \<open>H2\<close> is empty the header row read back is the old one
  followed by the new names. This holds for every \<open>H2\<close>, a superset of the first header
  or not.
\<close>

theorem ensureSheet_growth:
  "\<exists>sh1 sh2. sheets (ensureSheet h w name H1) name = Some sh1 \<and>
     sheets (ensureSheet h (ensureSheet h w name H1) name H2) name = Some sh2 \<and>
     (\<forall>c. 1 \<le> c \<and> c \<le> length (getHeaders sh1) \<longrightarrow> cellAt sh2 (1, c) = cellAt sh1 (1, c)) \<and>
     (\<forall>i. i < length (filter (\<lambda>x. Str x \<notin> set (getHeaders sh1)) H2) \<longrightarrow>
          cellAt sh2 (1, length (getHeaders sh1) + 1 + i) =
            textCell (filter (\<lambda>x. Str x \<notin> set (getHeaders sh1)) H2 ! i)) \<and>
     (\<forall>c. length (getHeaders sh1) + length (filter (\<lambda>x. Str x \<notin> set (getHeaders sh1)) H2) < c \<longrightarrow>
          cellAt sh2 (1, c) = blank) \<and>
     (\<forall>r c. r \<noteq> 1 \<longrightarrow> cellAt sh2 (r, c) = cellAt sh1 (r, c)) \<and>
     ([] \<notin> set H2 \<longrightarrow>
        getHeaders sh2 = getHeaders sh1 @ map Str (filter (\<lambda>x. Str x \<notin> set (getHeaders sh1)) H2)) \<and>
     (\<forall>n. n \<noteq> name \<longrightarrow>
        sheets (ensureSheet h (ensureSheet h w name H1) name H2) n =
          sheets (ensureSheet h w name H1) n)"
proof -
  let ?w1 = "ensureSheet h w name H1"
  let ?sh1 = "ensured h w name H1"
  let ?sh2 = "grownSheet ?sh1 H2"
  let ?new = "filter (\<lambda>x. Str x \<notin> set (getHeaders ?sh1)) H2"
  have new: "?new = missingOf ?sh1 H2" by (simp add: missingOf_def)
  have s1: "sheets ?w1 name = Some ?sh1" by (rule ensureSheet_sheet)
  have s2: "sheets (ensureSheet h ?w1 name H2) name = Some ?sh2"
    by (simp only: ensureSheet_sheet ensured_twice)
  have old: "\<forall>c. 1 \<le> c \<and> c \<le> length (getHeaders ?sh1) \<longrightarrow> cellAt ?sh2 (1, c) = cellAt ?sh1 (1, c)"
    by (simp add: grown_old_cells)
  have app: "\<forall>i. i < length ?new \<longrightarrow>
      cellAt ?sh2 (1, length (getHeaders ?sh1) + 1 + i) = textCell (?new ! i)"
    unfolding new using grown_new_cells by blast
  have bey: "\<forall>c. length (getHeaders ?sh1) + length ?new < c \<longrightarrow> cellAt ?sh2 (1, c) = blank"
    unfolding new using grown_beyond by blast
  have dat: "\<forall>r c. r \<noteq> 1 \<longrightarrow> cellAt ?sh2 (r, c) = cellAt ?sh1 (r, c)"
    by (simp add: grown_data_rows)
  have hdr: "getHeaders ?sh2 = getHeaders ?sh1 @ map Str ?new" if "[] \<notin> set H2"
  proof (cases "missingOf ?sh1 H2 = []")
    case True
    then show ?thesis by (simp add: new grownSheet_def)
  next
    case False
    then have "last (missingOf ?sh1 H2) \<in> set (missingOf ?sh1 H2)" by (rule last_in_set)
    then have "last (missingOf ?sh1 H2) \<in> set H2" by (simp add: missingOf_def)
    with that have "last (missingOf ?sh1 H2) \<noteq> []" by metis
    with False show ?thesis unfolding new by (rule grown_headers)
  qed
  have oth: "\<forall>n. n \<noteq> name \<longrightarrow> sheets (ensureSheet h ?w1 name H2) n = sheets ?w1 n"
    by (simp add: ensureSheet_others)
  have hdr': "[] \<notin> set H2 \<longrightarrow> getHeaders ?sh2 = getHeaders ?sh1 @ map Str ?new"
    using hdr by (rule impI)
  show ?thesis
    by (rule exI[of _ ?sh1], rule exI[of _ ?sh2]) (intro conjI s1 s2 old app bey dat hdr' oth)
qed

lemma ex_growth_first:
  "getHeaders (ensured exHost exWorld ''T'' [''A'', ''B'']) = [Str ''A'', Str ''B'']"
  by (simp add: ensured_def exWorld_def fresh_headers)

theorem ensureSheet_growth_witness:
  "[] \<notin> set [''A'', ''C'', ''B'', ''D''] \<and>
   (\<exists>sh1 sh2. sheets (ensureSheet exHost exWorld ''T'' [''A'', ''B'']) ''T'' = Some sh1 \<and>
      sheets (ensureSheet exHost (ensureSheet exHost exWorld ''T'' [''A'', ''B'']) ''T''
                [''A'', ''C'', ''B'', ''D'']) ''T'' = Some sh2 \<and>
      getHeaders sh1 = [Str ''A'', Str ''B''] \<and>
      getHeaders sh2 = [Str ''A'', Str ''B'', Str ''C'', Str ''D''])"
proof -
  have a: "[] \<notin> set [''A'', ''C'', ''B'', ''D'']" by simp
  from ensureSheet_growth[of exHost exWorld "''T''" "[''A'', ''B'']" "[''A'', ''C'', ''B'', ''D'']"]
  obtain sh1 sh2 where
    s1: "sheets (ensureSheet exHost exWorld ''T'' [''A'', ''B'']) ''T'' = Some sh1" and
    s2: "sheets (ensureSheet exHost (ensureSheet exHost exWorld ''T'' [''A'', ''B'']) ''T''
                [''A'', ''C'', ''B'', ''D'']) ''T'' = Some sh2" and
    hd: "[] \<notin> set [''A'', ''C'', ''B'', ''D''] \<longrightarrow>
        getHeaders sh2 = getHeaders sh1 @
          map Str (filter (\<lambda>x. Str x \<notin> set (getHeaders sh1)) [''A'', ''C'', ''B'', ''D''])"
    by (elim exE conjE)
  from s1 have "sh1 = ensured exHost exWorld ''T'' [''A'', ''B'']"
    by (simp add: ensureSheet_sheet)
  then have h1: "getHeaders sh1 = [Str ''A'', Str ''B'']" by (simp only: ex_growth_first)
  from hd a have "getHeaders sh2 = getHeaders sh1 @
          map Str (filter (\<lambda>x. Str x \<notin> set (getHeaders sh1)) [''A'', ''C'', ''B'', ''D''])"
    by blast
  then have h2: "getHeaders sh2 = [Str ''A'', Str ''B'', Str ''C'', Str ''D'']"
    unfolding h1 by simp
  show ?thesis
    by (rule conjI[OF a], rule exI[of _ sh1], rule exI[of _ sh2]) (intro conjI s1 s2 h1 h2)
qed

subsection \<open>Saving photos\<close>

text \<open>The function \<open>matchDataUrl\<close> accepts exactly the strings of the pattern.\<close>

lemma takeWhile_stop:
  "\<forall>x\<in>set xs. P x \<Longrightarrow> \<not> P y \<Longrightarrow> takeWhile P (xs @ y # ys) = xs"
  by (induction xs) auto

lemma matchDataUrl_iff:
  "matchDataUrl s = Some (ct, content) \<longleftrightarrow>
     (\<exists>sub. s = ''data:image/'' @ sub @ '';base64,'' @ content \<and> sub \<noteq> [] \<and>
        CHR '';'' \<notin> set sub \<and> content \<noteq> [] \<and>
        CHR 0x0A \<notin> set content \<and> CHR 0x0D \<notin> set content \<and> ct = ''image/'' @ sub)"
proof
  assume m: "matchDataUrl s = Some (ct, content)"
  let ?rest = "drop 11 s"
  let ?sub = "takeWhile (\<lambda>c. c \<noteq> CHR '';'') ?rest"
  let ?rest2 = "drop (length ?sub) ?rest"
  from m have e: "(if take 11 s = ''data:image/'' then
        (if ?sub \<noteq> [] \<and> take 8 ?rest2 = '';base64,'' then
           (if drop 8 ?rest2 \<noteq> [] \<and>
               list_all (\<lambda>c. c \<noteq> CHR 0x0A \<and> c \<noteq> CHR 0x0D) (drop 8 ?rest2)
            then Some (''image/'' @ ?sub, drop 8 ?rest2) else None)
         else None)
      else None) = Some (ct, content)"
    unfolding matchDataUrl_def Let_def .
  have p1: "take 11 s = ''data:image/''"
    using e by (simp only: simp_thms option.distinct split: if_splits)
  have p2: "?sub \<noteq> []" "take 8 ?rest2 = '';base64,''"
    using e by (simp_all only: simp_thms option.distinct split: if_splits)
  have p3: "content = drop 8 ?rest2" "content \<noteq> []"
      "list_all (\<lambda>c. c \<noteq> CHR 0x0A \<and> c \<noteq> CHR 0x0D) content" "ct = ''image/'' @ ?sub"
    using e by (simp_all only: simp_thms option.distinct option.inject prod.inject split: if_splits)
  have r0: "take 11 s @ ?rest = s" by (rule append_take_drop_id)
  have r1: "take (length ?sub) ?rest @ ?rest2 = ?rest" by (rule append_take_drop_id)
  have r2: "take 8 ?rest2 @ drop 8 ?rest2 = ?rest2" by (rule append_take_drop_id)
  have tk: "take (length ?sub) ?rest = ?sub" by (metis takeWhile_eq_take)
  have "?rest2 = '';base64,'' @ content" using r2 p2(2) p3(1) by metis
  then have "?rest = ?sub @ '';base64,'' @ content" using r1 tk by metis
  then have "s = ''data:image/'' @ ?sub @ '';base64,'' @ content"
    using r0 p1 by metis
  moreover have "CHR '';'' \<notin> set ?sub"
    using set_takeWhileD by fastforce
  moreover have "CHR 0x0A \<notin> set content \<and> CHR 0x0D \<notin> set content"
    using p3(3) by (auto simp: list_all_iff)
  ultimately show "\<exists>sub. s = ''data:image/'' @ sub @ '';base64,'' @ content \<and> sub \<noteq> [] \<and>
        CHR '';'' \<notin> set sub \<and> content \<noteq> [] \<and>
        CHR 0x0A \<notin> set content \<and> CHR 0x0D \<notin> set content \<and> ct = ''image/'' @ sub"
    using p2(1) p3(2,4) by blast
next
  assume "\<exists>sub. s = ''data:image/'' @ sub @ '';base64,'' @ content \<and> sub \<noteq> [] \<and>
        CHR '';'' \<notin> set sub \<and> content \<noteq> [] \<and>
        CHR 0x0A \<notin> set content \<and> CHR 0x0D \<notin> set content \<and> ct = ''image/'' @ sub"
  then obtain sub where s: "s = ''data:image/'' @ sub @ '';base64,'' @ content" and
    sub: "sub \<noteq> []" "CHR '';'' \<notin> set sub" and
    c: "content \<noteq> []" "CHR 0x0A \<notin> set content" "CHR 0x0D \<notin> set content" and
    ct: "ct = ''image/'' @ sub"
    by blast
  have t: "take 11 s = ''data:image/''" and d: "drop 11 s = sub @ CHR '';'' # (''base64,'' @ content)"
    by (simp_all add: s)
  have tw: "takeWhile (\<lambda>c. c \<noteq> CHR '';'') (sub @ CHR '';'' # (''base64,'' @ content)) = sub"
    by (rule takeWhile_stop) (use sub(2) in auto)
  have la: "list_all (\<lambda>c. c \<noteq> CHR 0x0A \<and> c \<noteq> CHR 0x0D) content"
    using c(2,3) by (auto simp: list_all_iff)
  show "matchDataUrl s = Some (ct, content)"
    unfolding matchDataUrl_def t d Let_def tw
    using sub(1) c(1) la ct by simp
qed

lemma photoStep_nomatch:
  "matchDataUrl (orEmpty (dataUrl p)) = None \<Longrightarrow> photoStep h f i wh st p idx = st"
  by (cases st) (simp add: photoStep_def)

lemma photoStep_nodecode:
  "matchDataUrl (orEmpty (dataUrl p)) = Some (ct, b64) \<Longrightarrow> base64Decode h b64 = None \<Longrightarrow>
   photoStep h f i wh st p idx = st"
  by (cases st) (simp add: photoStep_def)

lemma photoStep_count:
  "snd st \<le> snd (photoStep h f i wh st p idx) \<and> snd (photoStep h f i wh st p idx) \<le> Suc (snd st)"
  by (cases st)
     (simp add: photoStep_def Let_def nextUuid_def formatNow_def
        split: option.splits prod.splits sum.splits)

lemma photosLoop_count:
  "snd st \<le> snd (photosLoop h f i wh st ps idx) \<and>
   snd (photosLoop h f i wh st ps idx) \<le> snd st + length ps"
proof (induction ps arbitrary: st idx)
  case Nil
  then show ?case by simp
next
  case (Cons p ps)
  from Cons[of "photoStep h f i wh st p idx" "Suc idx"] photoStep_count[of st h f i wh p idx]
  show ?case by simp
qed

lemma photosLoop_append:
  "photosLoop h f i wh st (ps @ qs) idx =
     photosLoop h f i wh (photosLoop h f i wh st ps idx) qs (idx + length ps)"
  by (induction ps arbitrary: st idx) simp_all

lemma savePhotos_run:
  assumes "batchId \<noteq> []" "itemId \<noteq> []" "photos \<noteq> []"
    and "props w (''PHOTOS_'' @ batchId) = Some fid" "fid \<noteq> []" "folderExists h fid"
  shows "savePhotosDataUrls h w batchId itemId photos =
     Inr (photosLoop h fid itemId (formatDate h (tick w) ''yyyyMMdd-HHmmss'')
            ((ensureSheet h w SH_PHOTOS (HEADERS SH_PHOTOS))\<lparr>tick := Suc (tick w)\<rparr>, 0) photos 0)"
  using assms
  by (simp add: savePhotosDataUrls_def Let_def ensureSheet_props ensureSheet_tick formatNow_def)

lemma savePhotos_not_configured:
  assumes "batchId \<noteq> []" "itemId \<noteq> []" "photos \<noteq> []"
    and "orEmpty (props w (''PHOTOS_'' @ batchId)) = []"
  shows "savePhotosDataUrls h w batchId itemId photos =
     Inl (Error ''Photo folder not configured for this batch.'')"
  using assms
  by (simp add: savePhotosDataUrls_def Let_def ensureSheet_props orEmpty_def split: option.splits)

lemma savePhotos_no_folder:
  assumes "batchId \<noteq> []" "itemId \<noteq> []" "photos \<noteq> []"
    and "props w (''PHOTOS_'' @ batchId) = Some fid" "fid \<noteq> []" "\<not> folderExists h fid"
  shows "\<exists>e. savePhotosDataUrls h w batchId itemId photos = Inl e"
  using assms
  by (simp add: savePhotosDataUrls_def Let_def ensureSheet_props)

lemma photoStep_stored:
  assumes "matchDataUrl (orEmpty (dataUrl p)) = Some (ct, b64)"
    and "base64Decode h b64 = Some bytes"
    and "\<And>t name. createFile h t f name ct bytes \<noteq> None"
    and "sheets w SH_PHOTOS = Some sh" and "Str ''PhotoID'' \<in> set (getHeaders sh)"
  shows "\<exists>w'. photoStep h f i wh (w, n) p idx = (w', n + 1)"
proof -
  let ?name = "i @ ''-'' @ wh @ ''-'' @ padStart (decimal (idx + 1)) 2 CHR ''0'' @ ''.'' @
      (if ct = ''image/png'' then ''png'' else ''jpg'')"
  from assms(3) obtain fileId where cf: "createFile h (tick w) f ?name ct bytes = Some fileId"
    by (meson option.exhaust)
  let ?w3 = "w\<lparr>tick := Suc (Suc (Suc (tick w)))\<rparr>"
  from assms(5) obtain r where r: "nextFreeRowByHeader sh ''PhotoID'' = Inr r"
    using nextFree_Inr_iff by blast
  have s3: "sheets ?w3 SH_PHOTOS = Some sh" using assms(4) by simp
  have "\<exists>w4. appendRowAtKey ?w3 SH_PHOTOS ''PhotoID'' obj = Inr w4" for obj
    using appendRowAtKey_eq[OF s3 r] by blast
  then obtain w4 where "appendRowAtKey ?w3 SH_PHOTOS ''PhotoID''
      [(''PhotoID'', getUuid h (Suc (tick w))), (''ItemID'', i), (''Image'', fileId), (''Caption'', []),
       (''TakenAt'', formatDate h (Suc (Suc (tick w))) ''yyyy-MM-dd HH:mm:ss''),
       (''Lat'', []), (''Lng'', []), (''Uploader'', [])] = Inr w4"
    by blast
  with assms(1,2) cf show ?thesis
    by (simp add: photoStep_def Let_def nextUuid_def formatNow_def)
qed

lemma photosHeader_after_ensure:
  "\<exists>sh. sheets (ensureSheet h w SH_PHOTOS (HEADERS SH_PHOTOS)) SH_PHOTOS = Some sh \<and>
     Str ''PhotoID'' \<in> set (getHeaders sh)"
proof -
  have "''PhotoID'' \<in> set (HEADERS SH_PHOTOS)"
    by (simp add: HEADERS_def SH_PHOTOS_def SH_BATCHES_def SH_ITEMS_def SH_SELECT_def)
  then have "Str ''PhotoID'' \<in> set (getHeaders (ensured h w SH_PHOTOS (HEADERS SH_PHOTOS)))"
    by (rule ensured_member) simp
  then show ?thesis by (simp add: ensureSheet_sheet)
qed

lemma savePhotos_one_good:
  assumes "batchId \<noteq> []" "itemId \<noteq> []"
    and "props w (''PHOTOS_'' @ batchId) = Some fid" "fid \<noteq> []" "folderExists h fid"
    and "matchDataUrl (orEmpty (dataUrl good)) = Some (ct, b64)"
    and "base64Decode h b64 = Some bytes"
    and "\<And>t name. createFile h t fid name ct bytes \<noteq> None"
    and "matchDataUrl (orEmpty (dataUrl bad)) = None"
  shows "(\<exists>w'. savePhotosDataUrls h w batchId itemId [good, bad] = Inr (w', 1)) \<and>
         (\<exists>w'. savePhotosDataUrls h w batchId itemId [bad, good] = Inr (w', 1))"
proof -
  let ?wh = "formatDate h (tick w) ''yyyyMMdd-HHmmss''"
  let ?w2 = "(ensureSheet h w SH_PHOTOS (HEADERS SH_PHOTOS))\<lparr>tick := Suc (tick w)\<rparr>"
  from photosHeader_after_ensure[of h w] obtain sh where
    sh: "sheets ?w2 SH_PHOTOS = Some sh" "Str ''PhotoID'' \<in> set (getHeaders sh)"
    by auto
  from photoStep_stored[OF assms(6,7,8) sh, of itemId ?wh 0 0]
  obtain wa where a: "photoStep h fid itemId ?wh (?w2, 0) good 0 = (wa, 1)" by auto
  from photoStep_stored[OF assms(6,7,8) sh, of itemId ?wh 0 1]
  obtain wb where b: "photoStep h fid itemId ?wh (?w2, 0) good 1 = (wb, 1)" by auto
  have n: "photoStep h fid itemId ?wh st bad idx = st" for st idx
    using assms(9) by (rule photoStep_nomatch)
  have "savePhotosDataUrls h w batchId itemId [good, bad] = Inr (wa, 1)"
    using savePhotos_run[OF assms(1,2) _ assms(3,4,5), of "[good, bad]"] a n by simp
  moreover have "savePhotosDataUrls h w batchId itemId [bad, good] = Inr (wb, 1)"
    using savePhotos_run[OF assms(1,2) _ assms(3,4,5), of "[bad, good]"] b n by simp
  ultimately show ?thesis by blast
qed

text \<open>
  Claim C6, as the code has it. With a batch and an item identifier that are not empty,
  \<open>savePhotosDataUrls\<close> returns \<open>{saved: 0}\<close> for an empty list of photos. For a list
  that is not empty it throws "Photo folder not configured for this batch." when the
  script property PHOTOS_ + batchId is missing or empty, it fails with the host's
  exception when that folder cannot be opened, and otherwise it returns \<open>{saved: n}\<close> with
  \<open>n\<close> at most the number of entries.
\<close>

theorem savePhotos_result:
  assumes "batchId \<noteq> []" and "itemId \<noteq> []"
  shows "(photos = [] \<longrightarrow> savePhotosDataUrls h w batchId itemId photos = Inr (w, 0)) \<and>
     (photos \<noteq> [] \<and> orEmpty (props w (''PHOTOS_'' @ batchId)) = [] \<longrightarrow>
        savePhotosDataUrls h w batchId itemId photos =
          Inl (Error ''Photo folder not configured for this batch.'')) \<and>
     (photos \<noteq> [] \<and> orEmpty (props w (''PHOTOS_'' @ batchId)) \<noteq> [] \<and>
      \<not> folderExists h (orEmpty (props w (''PHOTOS_'' @ batchId))) \<longrightarrow>
        (\<exists>e. savePhotosDataUrls h w batchId itemId photos = Inl e)) \<and>
     (photos \<noteq> [] \<and> orEmpty (props w (''PHOTOS_'' @ batchId)) \<noteq> [] \<and>
      folderExists h (orEmpty (props w (''PHOTOS_'' @ batchId))) \<longrightarrow>
        (\<exists>w' n. savePhotosDataUrls h w batchId itemId photos = Inr (w', n) \<and> n \<le> length photos))"
proof (intro conjI impI)
  assume "photos = []"
  with assms show "savePhotosDataUrls h w batchId itemId photos = Inr (w, 0)"
    by (simp add: savePhotosDataUrls_def)
next
  assume "photos \<noteq> [] \<and> orEmpty (props w (''PHOTOS_'' @ batchId)) = []"
  with assms show "savePhotosDataUrls h w batchId itemId photos =
      Inl (Error ''Photo folder not configured for this batch.'')"
    by (simp add: savePhotos_not_configured)
next
  assume a: "photos \<noteq> [] \<and> orEmpty (props w (''PHOTOS_'' @ batchId)) \<noteq> [] \<and>
      \<not> folderExists h (orEmpty (props w (''PHOTOS_'' @ batchId)))"
  then obtain fid where "props w (''PHOTOS_'' @ batchId) = Some fid" "fid \<noteq> []" "\<not> folderExists h fid"
    by (cases "props w (''PHOTOS_'' @ batchId)") (auto simp: orEmpty_def)
  with assms a show "\<exists>e. savePhotosDataUrls h w batchId itemId photos = Inl e"
    by (intro savePhotos_no_folder) simp_all
next
  assume a: "photos \<noteq> [] \<and> orEmpty (props w (''PHOTOS_'' @ batchId)) \<noteq> [] \<and>
      folderExists h (orEmpty (props w (''PHOTOS_'' @ batchId)))"
  then obtain fid where f: "props w (''PHOTOS_'' @ batchId) = Some fid" "fid \<noteq> []" "folderExists h fid"
    by (cases "props w (''PHOTOS_'' @ batchId)") (auto simp: orEmpty_def)
  let ?res = "photosLoop h fid itemId (formatDate h (tick w) ''yyyyMMdd-HHmmss'')
            ((ensureSheet h w SH_PHOTOS (HEADERS SH_PHOTOS))\<lparr>tick := Suc (tick w)\<rparr>, 0) photos 0"
  have run: "savePhotosDataUrls h w batchId itemId photos = Inr ?res"
    using assms a f by (intro savePhotos_run) simp_all
  have "snd ?res \<le> length photos"
    using photosLoop_count[of "((ensureSheet h w SH_PHOTOS (HEADERS SH_PHOTOS))\<lparr>tick := Suc (tick w)\<rparr>, 0)"
        h fid itemId "formatDate h (tick w) ''yyyyMMdd-HHmmss''" photos 0]
    by simp
  with run show "\<exists>w' n. savePhotosDataUrls h w batchId itemId photos = Inr (w', n) \<and> n \<le> length photos"
    by (metis prod.collapse)
qed

text \<open>
  The claim as stated, that the call never throws, fails for a batch whose photo folder
  was never recorded.
\<close>

theorem savePhotos_throws:
  "''B9'' \<noteq> [] \<and> ''ITM-1'' \<noteq> [] \<and>
   savePhotosDataUrls exHost exWorld ''B9'' ''ITM-1'' [exGood] =
     Inl (Error ''Photo folder not configured for this batch.'')"
proof -
  have "orEmpty (props exWorld (''PHOTOS_'' @ ''B9'')) = []"
    by (simp add: exWorld_def orEmpty_def)
  then have "savePhotosDataUrls exHost exWorld ''B9'' ''ITM-1'' [exGood] =
     Inl (Error ''Photo folder not configured for this batch.'')"
    by (intro savePhotos_not_configured) simp_all
  then show ?thesis by simp
qed

theorem savePhotos_result_witness:
  "''B1'' \<noteq> [] \<and> ''ITM-1'' \<noteq> [] \<and> [exGood, exBad] \<noteq> [] \<and>
   orEmpty (props exWorld (''PHOTOS_'' @ ''B1'')) \<noteq> [] \<and>
   folderExists exHost (orEmpty (props exWorld (''PHOTOS_'' @ ''B1''))) \<and>
   (\<exists>w' n. savePhotosDataUrls exHost exWorld ''B1'' ''ITM-1'' [exGood, exBad] = Inr (w', n) \<and>
      n \<le> length [exGood, exBad])"
proof -
  have a: "''B1'' \<noteq> []" "''ITM-1'' \<noteq> []" "[exGood, exBad] \<noteq> []" by simp_all
  have b: "orEmpty (props exWorld (''PHOTOS_'' @ ''B1'')) \<noteq> []"
    by (simp add: exWorld_def orEmpty_def)
  have c: "folderExists exHost (orEmpty (props exWorld (''PHOTOS_'' @ ''B1'')))"
    by (simp add: exWorld_def exHost_def orEmpty_def)
  have imp: "[exGood, exBad] \<noteq> [] \<and> orEmpty (props exWorld (''PHOTOS_'' @ ''B1'')) \<noteq> [] \<and>
      folderExists exHost (orEmpty (props exWorld (''PHOTOS_'' @ ''B1''))) \<longrightarrow>
      (\<exists>w' n. savePhotosDataUrls exHost exWorld ''B1'' ''ITM-1'' [exGood, exBad] = Inr (w', n) \<and>
         n \<le> length [exGood, exBad])"
    using savePhotos_result[OF a(1,2), where photos = "[exGood, exBad]" and w = exWorld and h = exHost]
    by (elim conjE)
  have "\<exists>w' n. savePhotosDataUrls exHost exWorld ''B1'' ''ITM-1'' [exGood, exBad] = Inr (w', n) \<and>
      n \<le> length [exGood, exBad]"
    by (rule mp[OF imp]) (intro conjI a(3) b c)
  with a b c show ?thesis by (intro conjI)
qed

lemma photosLoop_middle:
  "photosLoop h f i wh st (ps @ p # qs) idx =
     photosLoop h f i wh (photoStep h f i wh (photosLoop h f i wh st ps idx) p (idx + length ps)) qs
       (Suc (idx + length ps))"
  by (simp add: photosLoop_append)

lemma photoStep_nostore:
  assumes "matchDataUrl (orEmpty (dataUrl p)) = Some (ct, b64)"
    and "base64Decode h b64 = Some bytes"
    and "\<And>t name. createFile h t f name ct bytes = None"
  shows "snd (photoStep h f i wh st p idx) = snd st \<and>
         sheets (fst (photoStep h f i wh st p idx)) = sheets (fst st)"
  using assms by (cases st) (simp add: photoStep_def Let_def)

text \<open>
  Claim C7. An entry whose payload does not match the pattern of an embedded image, and
  an entry whose content does not decode, leave the state and the count as they are, and
  the loop goes on with the entries after them under their own indices. An entry whose
  file cannot be stored leaves the count and the sheets as they are. The loop over a
  list is the loop over the entries before an entry, the step of that entry, and the
  loop over the entries after it: no entry ends it. With a configured folder, one entry
  that matches, decodes and is stored, and one that does not match, the result is
  \<open>{saved: 1}\<close>, in either order.
\<close>

theorem savePhotos_filtering:
  "(matchDataUrl (orEmpty (dataUrl p)) = None \<longrightarrow>
      photosLoop h f i wh st (ps @ p # qs) idx =
        photosLoop h f i wh (photosLoop h f i wh st ps idx) qs (Suc (idx + length ps))) \<and>
   (matchDataUrl (orEmpty (dataUrl p)) = Some (ct, b64) \<and> base64Decode h b64 = None \<longrightarrow>
      photosLoop h f i wh st (ps @ p # qs) idx =
        photosLoop h f i wh (photosLoop h f i wh st ps idx) qs (Suc (idx + length ps))) \<and>
   (matchDataUrl (orEmpty (dataUrl p)) = Some (ct, b64) \<and> base64Decode h b64 = Some bytes \<and>
    (\<forall>t name. createFile h t f name ct bytes = None) \<longrightarrow>
      snd (photoStep h f i wh st p idx) = snd st \<and>
      sheets (fst (photoStep h f i wh st p idx)) = sheets (fst st)) \<and>
   photosLoop h f i wh st (ps @ p # qs) idx =
     photosLoop h f i wh (photoStep h f i wh (photosLoop h f i wh st ps idx) p (idx + length ps)) qs
       (Suc (idx + length ps)) \<and>
   (batchId \<noteq> [] \<and> itemId \<noteq> [] \<and> props w (''PHOTOS_'' @ batchId) = Some fid \<and> fid \<noteq> [] \<and>
    folderExists h fid \<and> matchDataUrl (orEmpty (dataUrl good)) = Some (gct, g64) \<and>
    base64Decode h g64 = Some gbytes \<and> (\<forall>t name. createFile h t fid name gct gbytes \<noteq> None) \<and>
    matchDataUrl (orEmpty (dataUrl bad)) = None \<longrightarrow>
      (\<exists>w'. savePhotosDataUrls h w batchId itemId [good, bad] = Inr (w', 1)) \<and>
      (\<exists>w'. savePhotosDataUrls h w batchId itemId [bad, good] = Inr (w', 1)))"
proof (intro conjI impI)
  assume "matchDataUrl (orEmpty (dataUrl p)) = None"
  then show "photosLoop h f i wh st (ps @ p # qs) idx =
        photosLoop h f i wh (photosLoop h f i wh st ps idx) qs (Suc (idx + length ps))"
    by (simp add: photosLoop_middle photoStep_nomatch)
next
  assume "matchDataUrl (orEmpty (dataUrl p)) = Some (ct, b64) \<and> base64Decode h b64 = None"
  then show "photosLoop h f i wh st (ps @ p # qs) idx =
        photosLoop h f i wh (photosLoop h f i wh st ps idx) qs (Suc (idx + length ps))"
    by (simp add: photosLoop_middle photoStep_nodecode)
next
  assume a: "matchDataUrl (orEmpty (dataUrl p)) = Some (ct, b64) \<and> base64Decode h b64 = Some bytes \<and>
    (\<forall>t name. createFile h t f name ct bytes = None)"
  then have "snd (photoStep h f i wh st p idx) = snd st \<and>
      sheets (fst (photoStep h f i wh st p idx)) = sheets (fst st)"
    by (intro photoStep_nostore) auto
  then show "snd (photoStep h f i wh st p idx) = snd st"
    and "sheets (fst (photoStep h f i wh st p idx)) = sheets (fst st)"
    by simp_all
next
  show "photosLoop h f i wh st (ps @ p # qs) idx =
     photosLoop h f i wh (photoStep h f i wh (photosLoop h f i wh st ps idx) p (idx + length ps)) qs
       (Suc (idx + length ps))"
    by (rule photosLoop_middle)
next
  assume a: "batchId \<noteq> [] \<and> itemId \<noteq> [] \<and> props w (''PHOTOS_'' @ batchId) = Some fid \<and> fid \<noteq> [] \<and>
    folderExists h fid \<and> matchDataUrl (orEmpty (dataUrl good)) = Some (gct, g64) \<and>
    base64Decode h g64 = Some gbytes \<and> (\<forall>t name. createFile h t fid name gct gbytes \<noteq> None) \<and>
    matchDataUrl (orEmpty (dataUrl bad)) = None"
  then have "(\<exists>w'. savePhotosDataUrls h w batchId itemId [good, bad] = Inr (w', 1)) \<and>
      (\<exists>w'. savePhotosDataUrls h w batchId itemId [bad, good] = Inr (w', 1))"
    by (intro savePhotos_one_good[where fid = fid and ct = gct and ?b64.0 = g64 and bytes = gbytes])
       simp_all
  then show "\<exists>w'. savePhotosDataUrls h w batchId itemId [good, bad] = Inr (w', 1)"
    and "\<exists>w'. savePhotosDataUrls h w batchId itemId [bad, good] = Inr (w', 1)"
    by simp_all
qed

lemma exGood_match: "matchDataUrl (orEmpty (dataUrl exGood)) = Some (''image/png'', ''AAAA'')"
  by (simp add: exGood_def orEmpty_def matchDataUrl_def)

lemma exBad_match: "matchDataUrl (orEmpty (dataUrl exBad)) = None"
  by (simp add: exBad_def orEmpty_def matchDataUrl_def)

lemma exUndecodable_match:
  "matchDataUrl (orEmpty (dataUrl exUndecodable)) = Some (''image/jpeg'', ''????'')"
  by (simp add: exUndecodable_def orEmpty_def matchDataUrl_def)

theorem savePhotos_filtering_witness:
  "matchDataUrl (orEmpty (dataUrl exBad)) = None \<and>
   photosLoop exHost ''folder-1'' ''ITM-1'' ''20240506-070809'' (exWorld, 0) ([exGood] @ exBad # [exGood]) 0 =
     photosLoop exHost ''folder-1'' ''ITM-1'' ''20240506-070809''
       (photosLoop exHost ''folder-1'' ''ITM-1'' ''20240506-070809'' (exWorld, 0) [exGood] 0) [exGood]
       (Suc (0 + length [exGood])) \<and>
   matchDataUrl (orEmpty (dataUrl exUndecodable)) = Some (''image/jpeg'', ''????'') \<and>
   base64Decode exHost ''????'' = None \<and>
   photosLoop exHost ''folder-1'' ''ITM-1'' ''20240506-070809'' (exWorld, 0)
       ([exGood] @ exUndecodable # [exGood]) 0 =
     photosLoop exHost ''folder-1'' ''ITM-1'' ''20240506-070809''
       (photosLoop exHost ''folder-1'' ''ITM-1'' ''20240506-070809'' (exWorld, 0) [exGood] 0) [exGood]
       (Suc (0 + length [exGood])) \<and>
   base64Decode exFullDrive ''AAAA'' = Some [0, 0, 0] \<and>
   snd (photoStep exFullDrive ''folder-1'' ''ITM-1'' ''20240506-070809'' (exWorld, 0) exGood 0) = 0 \<and>
   ''B1'' \<noteq> [] \<and> ''ITM-1'' \<noteq> [] \<and> props exWorld (''PHOTOS_'' @ ''B1'') = Some ''folder-1'' \<and>
   folderExists exHost ''folder-1'' \<and>
   (\<exists>w'. savePhotosDataUrls exHost exWorld ''B1'' ''ITM-1'' [exGood, exBad] = Inr (w', 1)) \<and>
   (\<exists>w'. savePhotosDataUrls exHost exWorld ''B1'' ''ITM-1'' [exBad, exGood] = Inr (w', 1))"
proof -
  note inst = savePhotos_filtering[where h = exHost and f = "''folder-1''" and i = "''ITM-1''" and
      wh = "''20240506-070809''" and st = "(exWorld, 0)" and ps = "[exGood]" and qs = "[exGood]" and
      idx = 0 and batchId = "''B1''" and itemId = "''ITM-1''" and w = exWorld and
      fid = "''folder-1''" and good = exGood and bad = exBad and gct = "''image/png''" and
      ?g64.0 = "''AAAA''" and gbytes = "[0, 0, 0]"]
  have d1: "base64Decode exHost ''????'' = None" and d2: "base64Decode exHost ''AAAA'' = Some [0, 0, 0]"
    and d3: "base64Decode exFullDrive ''AAAA'' = Some [0, 0, 0]"
    by (simp_all add: exHost_def exFullDrive_def)
  have c1: "\<forall>t name. createFile exHost t ''folder-1'' name ''image/png'' [0, 0, 0] \<noteq> None"
    and c2: "\<forall>t name. createFile exFullDrive t ''folder-1'' name ''image/png'' [0, 0, 0] = None"
    by (simp_all add: exHost_def exFullDrive_def)
  have p: "''B1'' \<noteq> []" "''ITM-1'' \<noteq> []" "props exWorld (''PHOTOS_'' @ ''B1'') = Some ''folder-1''"
    "''folder-1'' \<noteq> []" "folderExists exHost ''folder-1''"
    by (simp_all add: exWorld_def exHost_def)
  have A: "photosLoop exHost ''folder-1'' ''ITM-1'' ''20240506-070809'' (exWorld, 0) ([exGood] @ exBad # [exGood]) 0 =
     photosLoop exHost ''folder-1'' ''ITM-1'' ''20240506-070809''
       (photosLoop exHost ''folder-1'' ''ITM-1'' ''20240506-070809'' (exWorld, 0) [exGood] 0) [exGood]
       (Suc (0 + length [exGood]))"
    by (rule mp[OF inst[where p = exBad, THEN conjunct1] exBad_match])
  have hB: "matchDataUrl (orEmpty (dataUrl exUndecodable)) = Some (''image/jpeg'', ''????'') \<and>
        base64Decode exHost ''????'' = None"
    by (intro conjI exUndecodable_match d1)
  have B: "photosLoop exHost ''folder-1'' ''ITM-1'' ''20240506-070809'' (exWorld, 0)
       ([exGood] @ exUndecodable # [exGood]) 0 =
     photosLoop exHost ''folder-1'' ''ITM-1'' ''20240506-070809''
       (photosLoop exHost ''folder-1'' ''ITM-1'' ''20240506-070809'' (exWorld, 0) [exGood] 0) [exGood]
       (Suc (0 + length [exGood]))"
    by (rule mp[OF inst[where p = exUndecodable and ct = "''image/jpeg''" and ?b64.0 = "''????''",
        THEN conjunct2, THEN conjunct1] hB])
  have hC: "matchDataUrl (orEmpty (dataUrl exGood)) = Some (''image/png'', ''AAAA'') \<and>
      base64Decode exFullDrive ''AAAA'' = Some [0, 0, 0] \<and>
      (\<forall>t name. createFile exFullDrive t ''folder-1'' name ''image/png'' [0, 0, 0] = None)"
    by (intro conjI exGood_match d3 c2)
  have C': "snd (photoStep exFullDrive ''folder-1'' ''ITM-1'' ''20240506-070809'' (exWorld, 0) exGood 0) =
        snd (exWorld, 0 :: nat) \<and>
      sheets (fst (photoStep exFullDrive ''folder-1'' ''ITM-1'' ''20240506-070809'' (exWorld, 0) exGood 0)) =
        sheets (fst (exWorld, 0 :: nat))"
    by (rule mp[OF savePhotos_filtering[where h = exFullDrive and f = "''folder-1''" and i = "''ITM-1''" and
      wh = "''20240506-070809''" and st = "(exWorld, 0)" and idx = 0 and p = exGood and
      ct = "''image/png''" and ?b64.0 = "''AAAA''" and bytes = "[0, 0, 0]",
      THEN conjunct2, THEN conjunct2, THEN conjunct1] hC])
  then have C: "snd (photoStep exFullDrive ''folder-1'' ''ITM-1'' ''20240506-070809'' (exWorld, 0) exGood 0) = 0"
    by (simp only: snd_conv)
  have hE: "''B1'' \<noteq> [] \<and> ''ITM-1'' \<noteq> [] \<and>
        props exWorld (''PHOTOS_'' @ ''B1'') = Some ''folder-1'' \<and> ''folder-1'' \<noteq> [] \<and>
        folderExists exHost ''folder-1'' \<and>
        matchDataUrl (orEmpty (dataUrl exGood)) = Some (''image/png'', ''AAAA'') \<and>
        base64Decode exHost ''AAAA'' = Some [0, 0, 0] \<and>
        (\<forall>t name. createFile exHost t ''folder-1'' name ''image/png'' [0, 0, 0] \<noteq> None) \<and>
        matchDataUrl (orEmpty (dataUrl exBad)) = None"
    by (intro conjI p exGood_match d2 c1 exBad_match)
  have E: "(\<exists>w'. savePhotosDataUrls exHost exWorld ''B1'' ''ITM-1'' [exGood, exBad] = Inr (w', 1)) \<and>
      (\<exists>w'. savePhotosDataUrls exHost exWorld ''B1'' ''ITM-1'' [exBad, exGood] = Inr (w', 1))"
    by (rule mp[OF inst[where p = exBad, THEN conjunct2, THEN conjunct2, THEN conjunct2, THEN conjunct2] hE])
  show ?thesis
    by (intro conjI exBad_match A exUndecodable_match d1 B d3 C p(1,2,3,5) E[THEN conjunct1]
        E[THEN conjunct2])
qed

subsection \<open>Saving items: the codes and the flags in the sheets\<close>

lemma written_column_le:
  "indexOf hs x = Some i \<Longrightarrow> Suc i \<le> length hs"
  using indexOf_SomeD[of hs x i] by simp

lemma writeRecord_row1:
  assumes "2 \<le> r"
  shows "cellAt (writeRecord sh hs r obj) (1, c) = cellAt sh (1, c)"
  using assms by (intro writeRecord_frame) auto

lemma writeRecord_beyond:
  assumes "1 \<le> r" and "length hs < c"
  shows "cellAt (writeRecord sh hs r obj) (r', c) = cellAt sh (r', c)"
proof (rule writeRecord_frame[OF assms(1)])
  show "\<not> (\<exists>h i. h \<in> fst ` set obj \<and> indexOf hs (Str h) = Some i \<and> (r', c) = (r, Suc i))"
    using assms(2) written_column_le[of hs] by fastforce
qed

lemma writeRecord_other_rows:
  assumes "1 \<le> r" and "r' \<noteq> r"
  shows "cellAt (writeRecord sh hs r obj) (r', c) = cellAt sh (r', c)"
  using assms by (intro writeRecord_frame) auto

lemma nextCodeForBatch_tick: "nextCodeForBatch (w\<lparr>tick := t\<rparr>) b = nextCodeForBatch w b"
  by (simp add: nextCodeForBatch_def getAll_def)

lemma HEADERS_ITEMS:
  "HEADERS SH_ITEMS =
     [''ItemID'', ''BatchID'', ''Code'', ''PerilType'', ''ImpactLevel'', ''Type'', ''Title'',
      ''Artist'', ''Material'', ''Date'', ''Dimensions'', ''Features'',
      ''HistoricIssuesPresent'', ''HistoricCode'', ''HistoricNotes'',
      ''TreatmentTimeMinutes'', ''TreatmentTimeUnit'', ''TreatmentTime'',
      ''AdditionalNotes'', ''OtherNotes'', ''Notes'', ''CreatedAt'']"
  by (simp add: HEADERS_def SH_ITEMS_def SH_BATCHES_def)

lemma HEADERS_ITEMS_props:
  "HEADERS SH_ITEMS \<noteq> []" "last (HEADERS SH_ITEMS) \<noteq> []" "[] \<notin> set (HEADERS SH_ITEMS)"
  "distinct (HEADERS SH_ITEMS)" "length (HEADERS SH_ITEMS) = 22"
  "indexOf (HEADERS SH_ITEMS) ''ItemID'' = Some 0"
  "indexOf (HEADERS SH_ITEMS) ''BatchID'' = Some 1"
  "''ItemID'' \<in> set (HEADERS SH_ITEMS)"
  by (simp_all add: HEADERS_ITEMS)

lemma SelectionID_in_HEADERS: "''SelectionID'' \<in> set (HEADERS SH_SELECT)"
  by (simp add: HEADERS_def SH_ITEMS_def SH_BATCHES_def SH_SELECT_def)

lemma sheet_names_differ: "SH_SELECT \<noteq> SH_ITEMS"
  by (simp add: SH_ITEMS_def SH_SELECT_def)

lemma itemRow_keys:
  "distinct (map fst (itemRow wx itemId code t p))"
  "(''ItemID'', itemId) \<in> set (itemRow wx itemId code t p)"
  "(''BatchID'', orEmpty (p_batchId p)) \<in> set (itemRow wx itemId code t p)"
  by (simp_all add: itemRow_def)

lemma appendRowAtKey_ok:
  assumes "sheets w name = Some sh" and "Str key \<in> set (getHeaders sh)"
  shows "\<exists>r. 2 \<le> r \<and> nextFreeRowByHeader sh key = Inr r \<and>
     appendRowAtKey w name key obj =
       Inr (w\<lparr>sheets := (sheets w)(name \<mapsto> writeRecord sh (getHeaders sh) r obj)\<rparr>)"
proof -
  from assms(2) obtain r where r: "nextFreeRowByHeader sh key = Inr r"
    using nextFree_Inr_iff by blast
  then have "2 \<le> r" by (rule nextFree_ge_2)
  with r appendRowAtKey_eq[OF assms(1) r] show ?thesis by blast
qed

text \<open>
  A record whose keys are not empty is written under header cells that are not blank, so
  the last column with content stays where it is and the header row reads back the same.
\<close>

lemma written_header_cell:
  assumes "indexOf (getHeaders sh) (Str h) = Some i" and "h \<noteq> []"
  shows "cellAt sh (1, Suc i) \<noteq> blank"
proof -
  from indexOf_SomeD[OF assms(1)] have "i < length (getHeaders sh)" "getHeaders sh ! i = Str h"
    by simp_all
  then have "cval (cellAt sh (1, Suc i)) = Str h" by (simp add: getHeaders_nth)
  with assms(2) show ?thesis by (intro cval_nonempty_content) simp
qed

lemma writeRecord_lastColumn_le:
  assumes "2 \<le> r"
  shows "getLastColumn (writeRecord sh (getHeaders sh) r obj) \<le> length (getHeaders sh)"
proof (rule ccontr)
  let ?S = "writeRecord sh (getHeaders sh) r obj"
  assume "\<not> getLastColumn ?S \<le> length (getHeaders sh)"
  then have gt: "length (getHeaders sh) < getLastColumn ?S" by simp
  then have "getLastColumn ?S \<noteq> 0" by simp
  then obtain r' where c: "cellAt ?S (r', getLastColumn ?S) \<noteq> blank"
    using lastColumn_content by blast
  have "cellAt ?S (r', getLastColumn ?S) = cellAt sh (r', getLastColumn ?S)"
    using assms gt by (intro writeRecord_beyond) simp_all
  also have "\<dots> = blank" using gt by (rule beyond_headers)
  finally show False using c by simp
qed

lemma writeRecord_lastColumn_ge:
  assumes "2 \<le> r" and "[] \<notin> fst ` set obj"
  shows "getLastColumn sh \<le> getLastColumn (writeRecord sh (getHeaders sh) r obj)"
proof (cases "getLastColumn sh = 0")
  case True
  then show ?thesis by simp
next
  case False
  let ?S = "writeRecord sh (getHeaders sh) r obj"
  let ?L = "getLastColumn sh"
  from False obtain r0 where r0: "cellAt sh (r0, ?L) \<noteq> blank"
    using lastColumn_content by blast
  show ?thesis
  proof (cases "\<exists>h i. h \<in> fst ` set obj \<and> indexOf (getHeaders sh) (Str h) = Some i \<and> (r0, ?L) = (r, Suc i)")
    case True
    then obtain h i where h: "h \<in> fst ` set obj" "indexOf (getHeaders sh) (Str h) = Some i" "?L = Suc i"
      by auto
    from h(1) assms(2) have "h \<noteq> []" by metis
    with h(2) have "cellAt sh (1, Suc i) \<noteq> blank" by (rule written_header_cell)
    then have "cellAt ?S (1, ?L) \<noteq> blank"
      unfolding h(3) by (simp only: writeRecord_row1[OF assms(1)] simp_thms)
    then show ?thesis by (rule content_le_lastColumn)
  next
    case False
    have "cellAt ?S (r0, ?L) = cellAt sh (r0, ?L)"
      using assms(1) False by (intro writeRecord_frame) simp_all
    with r0 have "cellAt ?S (r0, ?L) \<noteq> blank" by simp
    then show ?thesis by (rule content_le_lastColumn)
  qed
qed

lemma writeRecord_headers_same:
  assumes "2 \<le> r" and "[] \<notin> fst ` set obj"
  shows "getHeaders (writeRecord sh (getHeaders sh) r obj) = getHeaders sh"
proof -
  let ?S = "writeRecord sh (getHeaders sh) r obj"
  have "getLastColumn ?S \<le> max 1 (getLastColumn sh)"
    using writeRecord_lastColumn_le[OF assms(1), of sh obj] by (simp add: length_getHeaders)
  moreover have "getLastColumn sh \<le> getLastColumn ?S"
    using assms by (rule writeRecord_lastColumn_ge)
  ultimately have "max 1 (getLastColumn ?S) = max 1 (getLastColumn sh)" by simp
  then show ?thesis
    unfolding getHeaders_eq[of ?S] writeRecord_row1[OF assms(1)] by (simp only: getHeaders_eq)
qed

text \<open>
  A row whose key cell displays something lies above the next free row.
\<close>

lemma scanUp_gt: "i < n \<Longrightarrow> hd (cv ! i) \<noteq> [] \<Longrightarrow> i + 2 < scanUp cv n"
proof (induction n)
  case 0
  then show ?case by simp
next
  case (Suc n)
  show ?case
  proof (cases "hd (cv ! n) \<noteq> []")
    case True
    with Suc.prems show ?thesis by simp
  next
    case False
    with Suc.prems have "i < n" by (cases "i = n") auto
    with Suc False show ?thesis by simp
  qed
qed

lemma nextFree_after_content:
  assumes "indexOf (getHeaders sh) (Str key) = Some idx" and "2 \<le> r0"
    and "cdisp (cellAt sh (r0, Suc idx)) \<noteq> []"
  shows "\<exists>r. nextFreeRowByHeader sh key = Inr r \<and> r0 < r"
proof -
  have "cellAt sh (r0, Suc idx) \<noteq> blank" using assms(3) by (auto simp: blank_def)
  then have "inGrid sh (r0, Suc idx)" by (rule content_inGrid)
  then have le: "r0 \<le> maxRows sh" by (simp add: inGrid_def)
  let ?n = "maxRows sh - 1"
  let ?cv = "getDisplayValues sh 2 (idx + 1) ?n 1"
  from le assms(2) have n: "?n \<noteq> 0" and i: "r0 - 2 < ?n" by simp_all
  have "hd (?cv ! (r0 - 2)) = cdisp (cellAt sh (2 + (r0 - 2), idx + 1))"
    using i by (rule getDisplayValues_nth)
  also have "2 + (r0 - 2) = r0" using assms(2) by simp
  finally have "hd (?cv ! (r0 - 2)) \<noteq> []" using assms(3) by simp
  with i have "(r0 - 2) + 2 < scanUp ?cv ?n" by (rule scanUp_gt)
  then have "r0 < scanUp ?cv ?n" using assms(2) by simp
  moreover have "nextFreeRowByHeader sh key = Inr (scanUp ?cv ?n)"
    using n assms(1) by (simp add: nextFreeRowByHeader_def Let_def length_getDisplayValues)
  ultimately show ?thesis by blast
qed

subsection \<open>The rows of the selections\<close>

text \<open>
  The loop over the selections appends one row for each selection. Each row gets a
  selection identifier that is not empty in the key column, so the next row is allocated
  below it and the rows written before stay as they are.
\<close>

lemma selectionRow_nonempty_keys: "[] \<notin> fst ` set (selectionRow u itemId p s)"
  by (simp add: selectionRow_def Let_def)

lemma selectionRow_id:
  "(''SelectionID'', ''SEL-'' @ take 8 u) \<in> set (selectionRow u itemId p s)"
  by (simp add: selectionRow_def Let_def)

lemma selectionRow_keys:
  "distinct (map fst (selectionRow u itemId p s))"
  "(''NeedsReplacement'',
      if testLiteralI ''Replacement needed'' (orEmpty (sel_note s)) then ''TRUE'' else ''FALSE'')
     \<in> set (selectionRow u itemId p s)"
  "(''NeedsReupholstery'',
      if testLiteralI ''Reupholstery needed'' (orEmpty (sel_note s)) then ''TRUE'' else ''FALSE'')
     \<in> set (selectionRow u itemId p s)"
  "(''ItemID'', itemId) \<in> set (selectionRow u itemId p s)"
  "(''OptionCode'', orEmpty (sel_code s)) \<in> set (selectionRow u itemId p s)"
  by (simp_all add: selectionRow_def Let_def)

lemma indexOf_member: "indexOf xs x = Some i \<Longrightarrow> x \<in> set xs"
  using indexOf_None_iff[of xs x] by auto

lemma member_indexOf: "x \<in> set xs \<Longrightarrow> \<exists>i. indexOf xs x = Some i"
  using indexOf_None_iff[of xs x] by (cases "indexOf xs x") auto

lemma saveSelections_written:
  assumes "sheets w SH_SELECT = Some sh"
    and "indexOf (getHeaders sh) (Str ''SelectionID'') = Some c0"
  shows "\<exists>w' sh' rows r0.
     saveSelections h w itemId p ss = Inr w' \<and> sheets w' SH_SELECT = Some sh' \<and>
     (\<forall>n. n \<noteq> SH_SELECT \<longrightarrow> sheets w' n = sheets w n) \<and>
     getHeaders sh' = getHeaders sh \<and>
     nextFreeRowByHeader sh ''SelectionID'' = Inr r0 \<and>
     length rows = length ss \<and> distinct rows \<and> (\<forall>r \<in> set rows. r0 \<le> r) \<and>
     (\<forall>r c. r < r0 \<longrightarrow> cellAt sh' (r, c) = cellAt sh (r, c)) \<and>
     (\<forall>k x v i. k < length ss \<and>
         (x, v) \<in> set (selectionRow (getUuid h (tick w + k)) itemId p (ss ! k)) \<and>
         indexOf (getHeaders sh) (Str x) = Some i \<longrightarrow>
         cellAt sh' (rows ! k, Suc i) = textCell v)"
  using assms
proof (induction ss arbitrary: w sh)
  case Nil
  from Nil.prems(2) have "Str ''SelectionID'' \<in> set (getHeaders sh)" by (rule indexOf_member)
  then obtain r0 where r0: "nextFreeRowByHeader sh ''SelectionID'' = Inr r0"
    using nextFree_Inr_iff by blast
  show ?case
    by (rule exI[of _ w], rule exI[of _ sh], rule exI[of _ "[]"], rule exI[of _ r0])
       (simp add: Nil.prems(1) r0)
next
  case (Cons s ss)
  let ?hs = "getHeaders sh"
  let ?u = "getUuid h (tick w)"
  let ?w1 = "w\<lparr>tick := Suc (tick w)\<rparr>"
  let ?obj = "selectionRow ?u itemId p s"
  have s1: "sheets ?w1 SH_SELECT = Some sh" using Cons.prems(1) by simp
  from Cons.prems(2) have mem: "Str ''SelectionID'' \<in> set ?hs" by (rule indexOf_member)
  from appendRowAtKey_ok[OF s1 mem, of ?obj] obtain r0 where
    r0: "2 \<le> r0" "nextFreeRowByHeader sh ''SelectionID'' = Inr r0" and
    app: "appendRowAtKey ?w1 SH_SELECT ''SelectionID'' ?obj =
       Inr (?w1\<lparr>sheets := (sheets ?w1)(SH_SELECT \<mapsto> writeRecord sh ?hs r0 ?obj)\<rparr>)"
    by blast
  let ?S = "writeRecord sh ?hs r0 ?obj"
  let ?w2 = "?w1\<lparr>sheets := (sheets ?w1)(SH_SELECT \<mapsto> ?S)\<rparr>"
  have r01: "1 \<le> r0" using r0(1) by simp
  have hS: "getHeaders ?S = ?hs"
    using r0(1) selectionRow_nonempty_keys by (rule writeRecord_headers_same)
  have s2: "sheets ?w2 SH_SELECT = Some ?S" by simp
  have i2: "indexOf (getHeaders ?S) (Str ''SelectionID'') = Some c0"
    unfolding hS by (rule Cons.prems(2))
  have hit: "cellAt ?S (r0, Suc i) = textCell v"
    if "(x, v) \<in> set ?obj" "indexOf ?hs (Str x) = Some i" for x v i
    using r01 selectionRow_keys(1) that by (rule writeRecord_hit)
  have "cellAt ?S (r0, Suc c0) = textCell (''SEL-'' @ take 8 ?u)"
    using selectionRow_id Cons.prems(2) by (rule hit)
  then have "cdisp (cellAt ?S (r0, Suc c0)) \<noteq> []" by (simp add: textCell_def)
  with i2 r0(1) obtain r1' where r1': "nextFreeRowByHeader ?S ''SelectionID'' = Inr r1'" "r0 < r1'"
    using nextFree_after_content by blast
  from Cons.IH[OF s2 i2] obtain w' sh' rows r1 where
    run: "saveSelections h ?w2 itemId p ss = Inr w'" and
    sh': "sheets w' SH_SELECT = Some sh'" and
    oth: "\<forall>n. n \<noteq> SH_SELECT \<longrightarrow> sheets w' n = sheets ?w2 n" and
    hdr: "getHeaders sh' = getHeaders ?S" and
    r1: "nextFreeRowByHeader ?S ''SelectionID'' = Inr r1" and
    len: "length rows = length ss" and dist: "distinct rows" and
    low: "\<forall>r \<in> set rows. r1 \<le> r" and
    frame: "\<forall>r c. r < r1 \<longrightarrow> cellAt sh' (r, c) = cellAt ?S (r, c)" and
    cells: "\<forall>k x v i. k < length ss \<and>
         (x, v) \<in> set (selectionRow (getUuid h (tick ?w2 + k)) itemId p (ss ! k)) \<and>
         indexOf (getHeaders ?S) (Str x) = Some i \<longrightarrow>
         cellAt sh' (rows ! k, Suc i) = textCell v"
    by blast
  from r1 r1' have lt: "r0 < r1" by simp
  have run': "saveSelections h w itemId p (s # ss) = Inr w'"
    using app run by (simp add: nextUuid_def)
  have oth': "\<forall>n. n \<noteq> SH_SELECT \<longrightarrow> sheets w' n = sheets w n"
    using oth by simp
  have hdr': "getHeaders sh' = ?hs" using hdr hS by simp
  have notin: "r0 \<notin> set rows"
  proof
    assume "r0 \<in> set rows"
    with low have "r1 \<le> r0" by blast
    with lt show False by simp
  qed
  have dist': "distinct (r0 # rows)" using dist notin by simp
  have low': "\<forall>r \<in> set (r0 # rows). r0 \<le> r"
  proof
    fix r assume "r \<in> set (r0 # rows)"
    then consider "r = r0" | "r \<in> set rows" by auto
    then show "r0 \<le> r"
    proof cases
      case 1
      then show ?thesis by simp
    next
      case 2
      with low have "r1 \<le> r" by blast
      with lt show ?thesis by simp
    qed
  qed
  have frame': "\<forall>r c. r < r0 \<longrightarrow> cellAt sh' (r, c) = cellAt sh (r, c)"
  proof (intro allI impI)
    fix r c assume r: "r < r0"
    with lt have "r < r1" by simp
    with frame have "cellAt sh' (r, c) = cellAt ?S (r, c)" by blast
    also have "\<dots> = cellAt sh (r, c)"
      using r01 r by (intro writeRecord_other_rows) simp_all
    finally show "cellAt sh' (r, c) = cellAt sh (r, c)" .
  qed
  have cells': "\<forall>k x v i. k < length (s # ss) \<and>
         (x, v) \<in> set (selectionRow (getUuid h (tick w + k)) itemId p ((s # ss) ! k)) \<and>
         indexOf ?hs (Str x) = Some i \<longrightarrow>
         cellAt sh' ((r0 # rows) ! k, Suc i) = textCell v"
  proof (intro allI impI)
    fix k x v i
    assume a: "k < length (s # ss) \<and>
         (x, v) \<in> set (selectionRow (getUuid h (tick w + k)) itemId p ((s # ss) ! k)) \<and>
         indexOf ?hs (Str x) = Some i"
    show "cellAt sh' ((r0 # rows) ! k, Suc i) = textCell v"
    proof (cases k)
      case 0
      with a have m: "(x, v) \<in> set ?obj" and ix: "indexOf ?hs (Str x) = Some i" by simp_all
      from frame lt have "cellAt sh' (r0, Suc i) = cellAt ?S (r0, Suc i)" by blast
      also have "\<dots> = textCell v" using m ix by (rule hit)
      finally show ?thesis using 0 by simp
    next
      case (Suc k')
      with a have k': "k' < length ss" and
        m: "(x, v) \<in> set (selectionRow (getUuid h (tick ?w2 + k')) itemId p (ss ! k'))" and
        ix: "indexOf (getHeaders ?S) (Str x) = Some i"
        by (simp_all add: hS)
      from cells k' m ix have "cellAt sh' (rows ! k', Suc i) = textCell v" by blast
      then show ?thesis using Suc by simp
    qed
  qed
  have len': "length (r0 # rows) = length (s # ss)" using len by simp
  show ?case
    by (rule exI[of _ w'], rule exI[of _ sh'], rule exI[of _ "r0 # rows"], rule exI[of _ r0])
       (intro conjI run' sh' oth' hdr' r0(2) len' dist' low' frame' cells')
qed

lemma saveItem_trace:
  assumes "orEmpty (p_batchId p) \<noteq> []"
  shows "\<exists>r w' wx t itemId shS rows.
     2 \<le> r \<and> itemId \<noteq> [] \<and>
     nextFreeRowByHeader (ensured h w SH_ITEMS (HEADERS SH_ITEMS)) ''ItemID'' = Inr r \<and>
     saveItem h w p =
       Inr (w', itemId,
            nextCodeForBatch (ensureSheet h w SH_ITEMS (HEADERS SH_ITEMS)) (orEmpty (p_batchId p))) \<and>
     sheets w' SH_ITEMS =
       Some (writeRecord (ensured h w SH_ITEMS (HEADERS SH_ITEMS))
               (getHeaders (ensured h w SH_ITEMS (HEADERS SH_ITEMS))) r
               (itemRow wx itemId
                  (nextCodeForBatch (ensureSheet h w SH_ITEMS (HEADERS SH_ITEMS)) (orEmpty (p_batchId p)))
                  t p)) \<and>
     sheets w' SH_SELECT = Some shS \<and>
     getHeaders shS =
       getHeaders (ensured h (ensureSheet h w SH_ITEMS (HEADERS SH_ITEMS)) SH_SELECT (HEADERS SH_SELECT)) \<and>
     length rows = length (p_selections p) \<and> distinct rows \<and> (\<forall>r \<in> set rows. 2 \<le> r) \<and>
     (\<forall>k x v i. k < length (p_selections p) \<and>
         (x, v) \<in> set (selectionRow (getUuid h (tick w + 2 + k)) itemId p (p_selections p ! k)) \<and>
         indexOf (getHeaders shS) (Str x) = Some i \<longrightarrow>
         cellAt shS (rows ! k, Suc i) = textCell v)"
proof -
  let ?wI = "ensureSheet h w SH_ITEMS (HEADERS SH_ITEMS)"
  let ?wE = "ensureSheet h ?wI SH_SELECT (HEADERS SH_SELECT)"
  let ?shI = "ensured h w SH_ITEMS (HEADERS SH_ITEMS)"
  let ?shS = "ensured h ?wI SH_SELECT (HEADERS SH_SELECT)"
  let ?itemId = "''ITM-'' @ take 8 (getUuid h (tick w))"
  let ?code = "nextCodeForBatch ?wI (orEmpty (p_batchId p))"
  let ?t = "formatDate h (Suc (tick w)) ''yyyy-MM-dd HH:mm:ss''"
  let ?w4 = "?wE\<lparr>tick := Suc (Suc (tick w))\<rparr>"
  let ?obj = "itemRow ?w4 ?itemId ?code ?t p"
  have sI: "sheets ?wE SH_ITEMS = Some ?shI"
    using sheet_names_differ by (simp add: ensureSheet_others ensureSheet_sheet)
  have sS: "sheets ?wE SH_SELECT = Some ?shS" by (rule ensureSheet_sheet)
  have tk: "tick ?wE = tick w" by (simp add: ensureSheet_tick)
  have code: "nextCodeForBatch ?wE b = nextCodeForBatch ?wI b" for b
    using sheet_names_differ
    by (simp add: nextCodeForBatch_def getAll_def ensureSheet_others)
  have mI: "Str ''ItemID'' \<in> set (getHeaders ?shI)"
    using HEADERS_ITEMS_props(8) by (rule ensured_member) simp
  have mS: "Str ''SelectionID'' \<in> set (getHeaders ?shS)"
    using SelectionID_in_HEADERS by (rule ensured_member) simp
  from member_indexOf[OF mS] obtain c0 where
    c0: "indexOf (getHeaders ?shS) (Str ''SelectionID'') = Some c0" ..
  have s4: "sheets ?w4 SH_ITEMS = Some ?shI" using sI by simp
  from appendRowAtKey_ok[OF s4 mI, of ?obj] obtain r where
    r: "2 \<le> r" "nextFreeRowByHeader ?shI ''ItemID'' = Inr r" and
    app: "appendRowAtKey ?w4 SH_ITEMS ''ItemID'' ?obj =
       Inr (?w4\<lparr>sheets := (sheets ?w4)(SH_ITEMS \<mapsto> writeRecord ?shI (getHeaders ?shI) r ?obj)\<rparr>)"
    by blast
  let ?w5 = "?w4\<lparr>sheets := (sheets ?w4)(SH_ITEMS \<mapsto> writeRecord ?shI (getHeaders ?shI) r ?obj)\<rparr>"
  have s5: "sheets ?w5 SH_SELECT = Some ?shS" using sS sheet_names_differ by simp
  have t5: "tick ?w5 = tick w + 2" by simp
  from saveSelections_written[OF s5 c0, of h ?itemId p "p_selections p"]
  obtain w6 sh' rows r0 where
    w6: "saveSelections h ?w5 ?itemId p (p_selections p) = Inr w6" and
    sh': "sheets w6 SH_SELECT = Some sh'" and
    oth: "\<forall>n. n \<noteq> SH_SELECT \<longrightarrow> sheets w6 n = sheets ?w5 n" and
    hdr: "getHeaders sh' = getHeaders ?shS" and
    r0: "nextFreeRowByHeader ?shS ''SelectionID'' = Inr r0" and
    len: "length rows = length (p_selections p)" and dist: "distinct rows" and
    low: "\<forall>r \<in> set rows. r0 \<le> r" and
    cells: "\<forall>k x v i. k < length (p_selections p) \<and>
         (x, v) \<in> set (selectionRow (getUuid h (tick ?w5 + k)) ?itemId p (p_selections p ! k)) \<and>
         indexOf (getHeaders ?shS) (Str x) = Some i \<longrightarrow>
         cellAt sh' (rows ! k, Suc i) = textCell v"
    by (elim exE conjE)
  from r0 have "2 \<le> r0" by (rule nextFree_ge_2)
  then have low2: "\<forall>r \<in> set rows. 2 \<le> r"
  proof (intro ballI)
    fix r' assume "2 \<le> r0" and "r' \<in> set rows"
    with low have "r0 \<le> r'" by blast
    with \<open>2 \<le> r0\<close> show "2 \<le> r'" by simp
  qed
  have cells2: "\<forall>k x v i. k < length (p_selections p) \<and>
         (x, v) \<in> set (selectionRow (getUuid h (tick w + 2 + k)) ?itemId p (p_selections p ! k)) \<and>
         indexOf (getHeaders sh') (Str x) = Some i \<longrightarrow>
         cellAt sh' (rows ! k, Suc i) = textCell v"
    using cells unfolding t5 hdr .
  have res: "saveItem h w p = Inr (w6, ?itemId, ?code)"
    using assms app w6
    by (simp add: saveItem_def Let_def nextUuid_def formatNow_def tk nextCodeForBatch_tick code)
  from oth have "SH_ITEMS \<noteq> SH_SELECT \<longrightarrow> sheets w6 SH_ITEMS = sheets ?w5 SH_ITEMS"
    by (rule spec)
  moreover have "SH_ITEMS \<noteq> SH_SELECT" using sheet_names_differ by simp
  ultimately have "sheets w6 SH_ITEMS = sheets ?w5 SH_ITEMS" by (rule mp)
  then have items: "sheets w6 SH_ITEMS = Some (writeRecord ?shI (getHeaders ?shI) r ?obj)"
    by simp
  have id: "?itemId \<noteq> []" by simp
  show ?thesis
    by (rule exI[of _ r], rule exI[of _ w6], rule exI[of _ ?w4], rule exI[of _ ?t],
        rule exI[of _ ?itemId], rule exI[of _ sh'], rule exI[of _ rows])
       (intro conjI r(1) id r(2) res items sh' hdr len dist low2 cells2)
qed

lemma HEADERS_SELECT:
  "HEADERS SH_SELECT =
     [''SelectionID'', ''ItemID'', ''OptionCode'', ''Severity'', ''ExtentPercent'', ''Location'',
      ''ItemType'', ''UseSeverity'', ''SeverityWord'', ''BasePhrase'', ''IsLocalized'',
      ''LocPart'', ''ExtPart'', ''CondLine'',
      ''GlobalFrag'', ''LocalText'', ''LocalWhere'',
      ''NeedsReplacement'', ''NeedsReupholstery'']"
  by (simp add: HEADERS_def SH_ITEMS_def SH_BATCHES_def SH_SELECT_def)

lemma selection_columns:
  assumes "getHeaders sh = getHeaders (ensured h w SH_SELECT (HEADERS SH_SELECT))"
  shows "\<exists>i. indexOf (getHeaders sh) (Str ''NeedsReplacement'') = Some i"
    and "\<exists>i. indexOf (getHeaders sh) (Str ''NeedsReupholstery'') = Some i"
    and "\<exists>i. indexOf (getHeaders sh) (Str ''ItemID'') = Some i"
    and "\<exists>i. indexOf (getHeaders sh) (Str ''OptionCode'') = Some i"
proof -
  have m: "x \<in> set (HEADERS SH_SELECT) \<Longrightarrow> x \<noteq> [] \<Longrightarrow>
      \<exists>i. indexOf (getHeaders sh) (Str x) = Some i" for x
    unfolding assms by (intro member_indexOf ensured_member)
  show "\<exists>i. indexOf (getHeaders sh) (Str ''NeedsReplacement'') = Some i"
    by (rule m) (simp_all add: HEADERS_SELECT)
  show "\<exists>i. indexOf (getHeaders sh) (Str ''NeedsReupholstery'') = Some i"
    by (rule m) (simp_all add: HEADERS_SELECT)
  show "\<exists>i. indexOf (getHeaders sh) (Str ''ItemID'') = Some i"
    by (rule m) (simp_all add: HEADERS_SELECT)
  show "\<exists>i. indexOf (getHeaders sh) (Str ''OptionCode'') = Some i"
    by (rule m) (simp_all add: HEADERS_SELECT)
qed

text \<open>
  Claim C8. A call of \<open>saveItem\<close> with a batch identifier that is not empty returns
  normally, and the Selections sheet it leaves has one row below the header for each
  selection of the payload, the rows of different selections being different. In the row of a selection
  the cell under ItemID holds the identifier of the new item, the cell under OptionCode
  the code of the selection, the cell under NeedsReplacement holds TRUE when some part of
  the selection's note equals "Replacement needed" up to the case of its letters and
  FALSE otherwise, and the cell under NeedsReupholstery likewise for "Reupholstery
  needed". The note of a selection without one is the empty string.
\<close>

theorem saveItem_selection_flags:
  assumes "orEmpty (p_batchId p) \<noteq> []"
  shows "\<exists>w' itemId code sh rows i j m n.
     saveItem h w p = Inr (w', itemId, code) \<and> sheets w' SH_SELECT = Some sh \<and>
     indexOf (getHeaders sh) (Str ''NeedsReplacement'') = Some i \<and>
     indexOf (getHeaders sh) (Str ''NeedsReupholstery'') = Some j \<and>
     indexOf (getHeaders sh) (Str ''ItemID'') = Some m \<and>
     indexOf (getHeaders sh) (Str ''OptionCode'') = Some n \<and>
     length rows = length (p_selections p) \<and> distinct rows \<and> (\<forall>r \<in> set rows. 2 \<le> r) \<and>
     (\<forall>k<length (p_selections p).
        cellAt sh (rows ! k, Suc m) = textCell itemId \<and>
        cellAt sh (rows ! k, Suc n) = textCell (orEmpty (sel_code (p_selections p ! k))) \<and>
        cellAt sh (rows ! k, Suc i) =
          textCell (if \<exists>pre u suf. orEmpty (sel_note (p_selections p ! k)) = pre @ u @ suf \<and>
                         toLowerCase u = toLowerCase ''Replacement needed''
                    then ''TRUE'' else ''FALSE'') \<and>
        cellAt sh (rows ! k, Suc j) =
          textCell (if \<exists>pre u suf. orEmpty (sel_note (p_selections p ! k)) = pre @ u @ suf \<and>
                         toLowerCase u = toLowerCase ''Reupholstery needed''
                    then ''TRUE'' else ''FALSE''))"
proof -
  from saveItem_trace[OF assms, of h w] obtain w' itemId sh rows where
    res: "saveItem h w p =
       Inr (w', itemId,
            nextCodeForBatch (ensureSheet h w SH_ITEMS (HEADERS SH_ITEMS)) (orEmpty (p_batchId p)))" and
    sh: "sheets w' SH_SELECT = Some sh" and
    hdr: "getHeaders sh =
       getHeaders (ensured h (ensureSheet h w SH_ITEMS (HEADERS SH_ITEMS)) SH_SELECT (HEADERS SH_SELECT))" and
    len: "length rows = length (p_selections p)" and dist: "distinct rows" and
    low: "\<forall>r \<in> set rows. 2 \<le> r" and
    cells: "\<forall>k x v i. k < length (p_selections p) \<and>
         (x, v) \<in> set (selectionRow (getUuid h (tick w + 2 + k)) itemId p (p_selections p ! k)) \<and>
         indexOf (getHeaders sh) (Str x) = Some i \<longrightarrow>
         cellAt sh (rows ! k, Suc i) = textCell v"
    by (elim exE conjE)
  from selection_columns[OF hdr] obtain i j m n where
    i: "indexOf (getHeaders sh) (Str ''NeedsReplacement'') = Some i" and
    j: "indexOf (getHeaders sh) (Str ''NeedsReupholstery'') = Some j" and
    m: "indexOf (getHeaders sh) (Str ''ItemID'') = Some m" and
    n: "indexOf (getHeaders sh) (Str ''OptionCode'') = Some n"
    by (elim exE)
  have all: "\<forall>k<length (p_selections p).
        cellAt sh (rows ! k, Suc m) = textCell itemId \<and>
        cellAt sh (rows ! k, Suc n) = textCell (orEmpty (sel_code (p_selections p ! k))) \<and>
        cellAt sh (rows ! k, Suc i) =
          textCell (if \<exists>pre u suf. orEmpty (sel_note (p_selections p ! k)) = pre @ u @ suf \<and>
                         toLowerCase u = toLowerCase ''Replacement needed''
                    then ''TRUE'' else ''FALSE'') \<and>
        cellAt sh (rows ! k, Suc j) =
          textCell (if \<exists>pre u suf. orEmpty (sel_note (p_selections p ! k)) = pre @ u @ suf \<and>
                         toLowerCase u = toLowerCase ''Reupholstery needed''
                    then ''TRUE'' else ''FALSE'')"
    unfolding testLiteralI_iff[symmetric]
  proof (intro allI impI conjI)
    fix k assume k: "k < length (p_selections p)"
    let ?s = "p_selections p ! k"
    let ?row = "selectionRow (getUuid h (tick w + 2 + k)) itemId p ?s"
    have hit: "(x, v) \<in> set ?row \<Longrightarrow> indexOf (getHeaders sh) (Str x) = Some c \<Longrightarrow>
        cellAt sh (rows ! k, Suc c) = textCell v" for x v c
      using cells k by blast
    show "cellAt sh (rows ! k, Suc m) = textCell itemId"
      using selectionRow_keys(4) m by (rule hit)
    show "cellAt sh (rows ! k, Suc n) = textCell (orEmpty (sel_code ?s))"
      using selectionRow_keys(5) n by (rule hit)
    show "cellAt sh (rows ! k, Suc i) =
        textCell (if testLiteralI ''Replacement needed'' (orEmpty (sel_note ?s))
                  then ''TRUE'' else ''FALSE'')"
      using selectionRow_keys(2) i by (rule hit)
    show "cellAt sh (rows ! k, Suc j) =
        textCell (if testLiteralI ''Reupholstery needed'' (orEmpty (sel_note ?s))
                  then ''TRUE'' else ''FALSE'')"
      using selectionRow_keys(3) j by (rule hit)
  qed
  show ?thesis
    by (rule exI[of _ w'], rule exI[of _ itemId],
        rule exI[of _ "nextCodeForBatch (ensureSheet h w SH_ITEMS (HEADERS SH_ITEMS)) (orEmpty (p_batchId p))"],
        rule exI[of _ sh],
        rule exI[of _ rows], rule exI[of _ i], rule exI[of _ j], rule exI[of _ m],
        rule exI[of _ n])
       (intro conjI res sh i j m n len dist low all)
qed

lemma exFlagged_notes:
  "testLiteralI ''Replacement needed'' (orEmpty (sel_note (p_selections exFlagged ! 0)))"
  "\<not> testLiteralI ''Reupholstery needed'' (orEmpty (sel_note (p_selections exFlagged ! 0)))"
  "\<not> testLiteralI ''Replacement needed'' (orEmpty (sel_note (p_selections exFlagged ! 1)))"
  "\<not> testLiteralI ''Reupholstery needed'' (orEmpty (sel_note (p_selections exFlagged ! 1)))"
  by code_simp+

theorem saveItem_selection_flags_witness:
  "orEmpty (p_batchId exFlagged) \<noteq> [] \<and>
   (\<exists>w' itemId code sh rows i j.
      saveItem exHost exWorld exFlagged = Inr (w', itemId, code) \<and>
      sheets w' SH_SELECT = Some sh \<and>
      indexOf (getHeaders sh) (Str ''NeedsReplacement'') = Some i \<and>
      indexOf (getHeaders sh) (Str ''NeedsReupholstery'') = Some j \<and>
      length rows = 2 \<and> distinct rows \<and>
      cellAt sh (rows ! 0, Suc i) = textCell ''TRUE'' \<and>
      cellAt sh (rows ! 0, Suc j) = textCell ''FALSE'' \<and>
      cellAt sh (rows ! 1, Suc i) = textCell ''FALSE'' \<and>
      cellAt sh (rows ! 1, Suc j) = textCell ''FALSE'')"
proof -
  have b: "orEmpty (p_batchId exFlagged) \<noteq> []"
    by (simp add: exFlagged_def exPayload_def orEmpty_def)
  have l: "length (p_selections exFlagged) = 2"
    by (simp add: exFlagged_def exPayload_def)
  from saveItem_selection_flags[OF b, of exHost exWorld] obtain w' itemId code sh rows i j where
    res: "saveItem exHost exWorld exFlagged = Inr (w', itemId, code)" and
    sh: "sheets w' SH_SELECT = Some sh" and
    i: "indexOf (getHeaders sh) (Str ''NeedsReplacement'') = Some i" and
    j: "indexOf (getHeaders sh) (Str ''NeedsReupholstery'') = Some j" and
    len: "length rows = length (p_selections exFlagged)" and dist: "distinct rows" and
    all: "\<forall>k<length (p_selections exFlagged).
        cellAt sh (rows ! k, Suc i) =
          textCell (if \<exists>pre u suf. orEmpty (sel_note (p_selections exFlagged ! k)) = pre @ u @ suf \<and>
                         toLowerCase u = toLowerCase ''Replacement needed''
                    then ''TRUE'' else ''FALSE'') \<and>
        cellAt sh (rows ! k, Suc j) =
          textCell (if \<exists>pre u suf. orEmpty (sel_note (p_selections exFlagged ! k)) = pre @ u @ suf \<and>
                         toLowerCase u = toLowerCase ''Reupholstery needed''
                    then ''TRUE'' else ''FALSE'')"
    by (elim exE conjE) blast
  note all' = all[unfolded testLiteralI_iff[symmetric] l]
  have k0: "(0 :: nat) < 2" and k1: "(1 :: nat) < 2" by simp_all
  from all'[rule_format, OF k0] exFlagged_notes(1,2)
  have c0: "cellAt sh (rows ! 0, Suc i) = textCell ''TRUE''"
    "cellAt sh (rows ! 0, Suc j) = textCell ''FALSE''"
    by simp_all
  from all'[rule_format, OF k1] exFlagged_notes(3,4)
  have c1: "cellAt sh (rows ! 1, Suc i) = textCell ''FALSE''"
    "cellAt sh (rows ! 1, Suc j) = textCell ''FALSE''"
    by simp_all
  have len2: "length rows = 2" using len l by simp
  show ?thesis
    by (rule conjI[OF b], rule exI[of _ w'], rule exI[of _ itemId], rule exI[of _ code],
        rule exI[of _ sh], rule exI[of _ rows], rule exI[of _ i], rule exI[of _ j])
       (intro conjI res sh i j len2 dist c0 c1)
qed

subsection \<open>The items of a batch\<close>

text \<open>
  The BatchID that \<open>getAll_\<close> gives a row is its value in the last column whose header
  cell reads BatchID. The number of rows of a batch does not change when \<open>ensureSheet_\<close>
  adds columns.
\<close>

lemma toStr_blank: "toStr (cval blank) = []"
  by (simp add: blank_def)

lemma titled_column:
  assumes "toStr (cval (cellAt sh (1, c))) = x" and "x \<noteq> []"
  shows "1 \<le> c \<and> c \<le> length (getHeaders sh) \<and> getHeaders sh ! (c - 1) = cval (cellAt sh (1, c))"
proof -
  have ne: "cellAt sh (1, c) \<noteq> blank"
    using assms toStr_blank by metis
  then have "inGrid sh (1, c)" by (rule content_inGrid)
  then have c1: "1 \<le> c" by (simp add: inGrid_def)
  from ne have "c \<le> getLastColumn sh" by (rule content_le_lastColumn)
  then have le: "c \<le> length (getHeaders sh)" by (simp add: length_getHeaders)
  from c1 le have "c - 1 < length (getHeaders sh)" "Suc (c - 1) = c" by simp_all
  then have "getHeaders sh ! (c - 1) = cval (cellAt sh (1, c))"
    using getHeaders_nth[of "c - 1" sh] by simp
  with c1 le show ?thesis by simp
qed

lemma rowObject_inBatch:
  "rowObject (getHeaders sh) (dataRow sh r) ''BatchID'' = Some (Str b) \<longleftrightarrow> inBatch sh b r"
proof
  let ?hs = "getHeaders sh"
  assume "rowObject ?hs (dataRow sh r) ''BatchID'' = Some (Str b)"
  then obtain i where i: "i < length ?hs" "toStr (?hs ! i) = ''BatchID''"
      "\<forall>j. i < j \<and> j < length ?hs \<longrightarrow> toStr (?hs ! j) \<noteq> ''BatchID''" "dataRow sh r ! i = Str b"
    unfolding rowObject_eq_Some_iff by blast
  from i(1,2) have a: "toStr (cval (cellAt sh (1, Suc i))) = ''BatchID''"
    by (simp add: getHeaders_nth)
  from i(1,4) have c: "cval (cellAt sh (r, Suc i)) = Str b"
    by (simp add: dataRow_nth length_getHeaders)
  have b: "\<forall>d. Suc i < d \<longrightarrow> toStr (cval (cellAt sh (1, d))) \<noteq> ''BatchID''"
  proof (intro allI impI)
    fix d assume d: "Suc i < d"
    show "toStr (cval (cellAt sh (1, d))) \<noteq> ''BatchID''"
    proof (cases "d \<le> length ?hs")
      case True
      with d have "i < d - 1 \<and> d - 1 < length ?hs" by auto
      with i(3) have "toStr (?hs ! (d - 1)) \<noteq> ''BatchID''" by blast
      moreover have "?hs ! (d - 1) = cval (cellAt sh (1, Suc (d - 1)))"
        using True d by (intro getHeaders_nth) simp
      moreover have "Suc (d - 1) = d" using d by simp
      ultimately show ?thesis by simp
    next
      case False
      then have "cellAt sh (1, d) = blank" by (intro beyond_headers) simp
      then show ?thesis by (simp add: toStr_blank)
    qed
  qed
  from a b c show "inBatch sh b r" unfolding inBatch_def by blast
next
  let ?hs = "getHeaders sh"
  assume "inBatch sh b r"
  then obtain c where c: "toStr (cval (cellAt sh (1, c))) = ''BatchID''"
      "\<forall>d. c < d \<longrightarrow> toStr (cval (cellAt sh (1, d))) \<noteq> ''BatchID''"
      "cval (cellAt sh (r, c)) = Str b"
    unfolding inBatch_def by blast
  from titled_column[OF c(1)] have t: "1 \<le> c" "c \<le> length ?hs" "?hs ! (c - 1) = cval (cellAt sh (1, c))"
    by simp_all
  have lt: "c - 1 < length ?hs" and sc: "Suc (c - 1) = c" using t(1,2) by simp_all
  have "toStr (?hs ! (c - 1)) = ''BatchID''" using t(3) c(1) by simp
  moreover have "\<forall>j. c - 1 < j \<and> j < length ?hs \<longrightarrow> toStr (?hs ! j) \<noteq> ''BatchID''"
  proof (intro allI impI)
    fix j assume j: "c - 1 < j \<and> j < length ?hs"
    then have "c < Suc j" by arith
    with c(2) have "toStr (cval (cellAt sh (1, Suc j))) \<noteq> ''BatchID''" by blast
    moreover from j have "?hs ! j = cval (cellAt sh (1, Suc j))" by (intro getHeaders_nth) simp
    ultimately show "toStr (?hs ! j) \<noteq> ''BatchID''" by simp
  qed
  moreover have "dataRow sh r ! (c - 1) = Str b"
    using lt c(3) sc by (simp add: dataRow_nth length_getHeaders)
  ultimately show "rowObject ?hs (dataRow sh r) ''BatchID'' = Some (Str b)"
    unfolding rowObject_eq_Some_iff using lt by blast
qed

lemma itemsOfBatch_getAll:
  "length (filter (\<lambda>r. r ''BatchID'' = Some (Str b)) (getAll w SH_ITEMS)) = itemsOfBatch w b"
proof (cases "sheets w SH_ITEMS")
  case None
  then show ?thesis by (simp add: getAll_eq itemsOfBatch_def)
next
  case (Some sh)
  have "length (filter (\<lambda>r. r ''BatchID'' = Some (Str b)) (getAll w SH_ITEMS)) =
      length (filter (inBatch sh b) [2..<Suc (getLastRow sh)])"
    using Some by (simp add: getAll_eq filter_map comp_def rowObject_inBatch del: upt_Suc)
  also have "\<dots> = card {r \<in> set [2..<Suc (getLastRow sh)]. inBatch sh b r}"
    by (subst distinct_length_filter) (simp_all add: Int_def conj_commute del: upt_Suc)
  also have "{r \<in> set [2..<Suc (getLastRow sh)]. inBatch sh b r} =
      {r. 2 \<le> r \<and> r \<le> getLastRow sh \<and> inBatch sh b r}"
    by auto
  finally show ?thesis using Some by (simp add: itemsOfBatch_def)
qed

lemma nextCodeForBatch_count:
  "nextCodeForBatch w b =
     ''I'' @ (if itemsOfBatch w b + 1 < 1000
              then [digitChar ((itemsOfBatch w b + 1) div 100),
                    digitChar ((itemsOfBatch w b + 1) div 10 mod 10),
                    digitChar ((itemsOfBatch w b + 1) mod 10)]
              else decimal (itemsOfBatch w b + 1))"
  unfolding nextCodeForBatch_def Let_def itemsOfBatch_getAll padStart3_decimal ..

lemma decimal_digits: "set (decimal n) \<subseteq> set ''0123456789''"
proof (induction n rule: decimal.induct)
  case (1 n)
  have d: "digitChar k \<in> set ''0123456789''" if "k < 10" for k
    unfolding digitChar_def by (rule nth_mem) (use that in simp)
  show ?case
  proof (cases "n < 10")
    case True
    then show ?thesis using d[of n] by (simp add: decimal_small)
  next
    case False
    then have "set (decimal (n div 10)) \<subseteq> set ''0123456789''" by (rule 1)
    moreover have "digitChar (n mod 10) \<in> set ''0123456789''" by (rule d) simp
    ultimately show ?thesis using False by (simp add: decimal_step)
  qed
qed

lemma toStr_BatchID: "toStr v = ''BatchID'' \<Longrightarrow> v = Str ''BatchID''"
proof (cases v)
  case (Str s)
  assume "toStr v = ''BatchID''"
  with Str show ?thesis by simp
next
  case (Num n)
  assume a: "toStr v = ''BatchID''"
  have "CHR ''B'' \<notin> set (decimal m)" for m
    using decimal_digits[of m] by auto
  then have "decimal m \<noteq> ''BatchID''" for m by (metis list.set_intros(1))
  with a Num show ?thesis by (simp split: if_splits)
next
  case (Bool b)
  assume "toStr v = ''BatchID''"
  with Bool show ?thesis by (simp split: if_splits)
qed

lemma str_content: "cval c = Str b \<Longrightarrow> b \<noteq> [] \<Longrightarrow> c \<noteq> blank"
  by (auto simp: blank_def)

lemma inBatch_lastRow:
  assumes "inBatch sh b r" and "b \<noteq> []"
  shows "r \<le> getLastRow sh"
proof -
  from assms(1) obtain c where "cval (cellAt sh (r, c)) = Str b"
    unfolding inBatch_def by blast
  then have "cellAt sh (r, c) \<noteq> blank" using assms(2) by (rule str_content)
  then show ?thesis by (rule content_le_lastRow)
qed

lemma itemsOfBatch_alt:
  assumes "b \<noteq> []"
  shows "itemsOfBatch w b =
     (case sheets w SH_ITEMS of None \<Rightarrow> 0 | Some sh \<Rightarrow> card {r. 2 \<le> r \<and> inBatch sh b r})"
proof (cases "sheets w SH_ITEMS")
  case None
  then show ?thesis by (simp add: itemsOfBatch_def)
next
  case (Some sh)
  have "{r. 2 \<le> r \<and> r \<le> getLastRow sh \<and> inBatch sh b r} = {r. 2 \<le> r \<and> inBatch sh b r}"
    using inBatch_lastRow[OF _ assms, of sh] by blast
  with Some show ?thesis by (simp add: itemsOfBatch_def)
qed

lemma finite_inBatch:
  assumes "b \<noteq> []"
  shows "finite {r. 2 \<le> r \<and> inBatch sh b r}"
proof (rule finite_subset)
  show "{r. 2 \<le> r \<and> inBatch sh b r} \<subseteq> {..getLastRow sh}"
    using inBatch_lastRow[OF _ assms, of sh] by blast
  show "finite {..getLastRow sh}" by simp
qed

lemma inBatch_grown:
  assumes "r \<noteq> 1" and "b \<noteq> []"
  shows "inBatch (grownSheet sh H) b r \<longleftrightarrow> inBatch sh b r"
proof
  let ?g = "grownSheet sh H"
  let ?k = "length (getHeaders sh)"
  assume "inBatch ?g b r"
  then obtain c where c: "toStr (cval (cellAt ?g (1, c))) = ''BatchID''"
      "\<forall>d. c < d \<longrightarrow> toStr (cval (cellAt ?g (1, d))) \<noteq> ''BatchID''"
      "cval (cellAt ?g (r, c)) = Str b"
    unfolding inBatch_def by blast
  have data: "cellAt ?g (r, c) = cellAt sh (r, c)"
    using assms(1) by (intro grown_data_rows) simp
  with c(3) have v: "cval (cellAt sh (r, c)) = Str b" by simp
  then have "cellAt sh (r, c) \<noteq> blank" using assms(2) by (rule str_content)
  then have "c \<le> getLastColumn sh" by (rule content_le_lastColumn)
  then have le: "c \<le> ?k" by (simp add: length_getHeaders)
  then have "cellAt ?g (1, c) = cellAt sh (1, c)" by (intro grown_old_cells) simp
  with c(1) have t: "toStr (cval (cellAt sh (1, c))) = ''BatchID''" by simp
  have l: "\<forall>d. c < d \<longrightarrow> toStr (cval (cellAt sh (1, d))) \<noteq> ''BatchID''"
  proof (intro allI impI)
    fix d assume d: "c < d"
    show "toStr (cval (cellAt sh (1, d))) \<noteq> ''BatchID''"
    proof (cases "d \<le> ?k")
      case True
      then have "cellAt ?g (1, d) = cellAt sh (1, d)" by (intro grown_old_cells) simp
      with c(2) d show ?thesis by metis
    next
      case False
      then have "cellAt sh (1, d) = blank" by (intro beyond_headers) simp
      then show ?thesis by (simp add: toStr_blank)
    qed
  qed
  from t l v show "inBatch sh b r" unfolding inBatch_def by blast
next
  let ?g = "grownSheet sh H"
  let ?k = "length (getHeaders sh)"
  let ?m = "missingOf sh H"
  assume "inBatch sh b r"
  then obtain c where c: "toStr (cval (cellAt sh (1, c))) = ''BatchID''"
      "\<forall>d. c < d \<longrightarrow> toStr (cval (cellAt sh (1, d))) \<noteq> ''BatchID''"
      "cval (cellAt sh (r, c)) = Str b"
    unfolding inBatch_def by blast
  from titled_column[OF c(1)] have tc: "1 \<le> c" "c \<le> ?k" "getHeaders sh ! (c - 1) = cval (cellAt sh (1, c))"
    by simp_all
  from c(1) have "cval (cellAt sh (1, c)) = Str ''BatchID''" by (rule toStr_BatchID)
  with tc have "getHeaders sh ! (c - 1) = Str ''BatchID''" "c - 1 < ?k" by simp_all
  then have inhs: "Str ''BatchID'' \<in> set (getHeaders sh)" by (metis nth_mem)
  have "cellAt ?g (1, c) = cellAt sh (1, c)" using tc(2) by (intro grown_old_cells) simp
  with c(1) have t: "toStr (cval (cellAt ?g (1, c))) = ''BatchID''" by simp
  have "cellAt ?g (r, c) = cellAt sh (r, c)" using assms(1) by (intro grown_data_rows) simp
  with c(3) have v: "cval (cellAt ?g (r, c)) = Str b" by simp
  have l: "\<forall>d. c < d \<longrightarrow> toStr (cval (cellAt ?g (1, d))) \<noteq> ''BatchID''"
  proof (intro allI impI)
    fix d assume d: "c < d"
    show "toStr (cval (cellAt ?g (1, d))) \<noteq> ''BatchID''"
    proof (cases "?k < d \<and> d \<le> ?k + length ?m")
      case True
      then have i: "d - ?k - 1 < length ?m" by auto
      from True have "cellAt ?g (1, d) = textCell (?m ! (d - ?k - 1))"
        by (simp add: cellAt_grownSheet)
      then have eq: "toStr (cval (cellAt ?g (1, d))) = ?m ! (d - ?k - 1)"
        by (simp add: cval_textCell)
      have "?m ! (d - ?k - 1) \<in> set ?m" using i by (rule nth_mem)
      then have "Str (?m ! (d - ?k - 1)) \<notin> set (getHeaders sh)" by (simp add: missingOf_def)
      with inhs have "?m ! (d - ?k - 1) \<noteq> ''BatchID''" by metis
      with eq show ?thesis by simp
    next
      case False
      then have "cellAt ?g (1, d) = cellAt sh (1, d)" by (auto simp: cellAt_grownSheet)
      with c(2) d show ?thesis by simp
    qed
  qed
  from t l v show "inBatch ?g b r" unfolding inBatch_def by blast
qed

lemma not_inBatch_fresh:
  assumes "r \<noteq> 1" and "b \<noteq> []"
  shows "\<not> inBatch (freshSheet h H) b r"
proof
  assume "inBatch (freshSheet h H) b r"
  then obtain c where "cval (cellAt (freshSheet h H) (r, c)) = Str b"
    unfolding inBatch_def by blast
  moreover have "cellAt (freshSheet h H) (r, c) = blank" using assms(1) by (rule fresh_data_blank)
  ultimately show False using assms(2) by (simp add: blank_def)
qed

lemma itemsOfBatch_ensure:
  assumes "b \<noteq> []"
  shows "itemsOfBatch (ensureSheet h w SH_ITEMS H) b = itemsOfBatch w b"
proof -
  have after: "itemsOfBatch (ensureSheet h w SH_ITEMS H) b =
      card {r. 2 \<le> r \<and> inBatch (ensured h w SH_ITEMS H) b r}"
    by (simp add: itemsOfBatch_alt[OF assms] ensureSheet_sheet)
  show ?thesis
  proof (cases "sheets w SH_ITEMS")
    case None
    then have e: "ensured h w SH_ITEMS H = freshSheet h H" by (simp add: ensured_def)
    have "{r. 2 \<le> r \<and> inBatch (freshSheet h H) b r} = {}"
      using not_inBatch_fresh[OF _ assms, of _ h H] by auto
    then have "card {r. 2 \<le> r \<and> inBatch (freshSheet h H) b r} = 0"
      by (simp only: card.empty)
    with None show ?thesis unfolding after e by (simp add: itemsOfBatch_def)
  next
    case (Some sh)
    show ?thesis
    proof (cases "missingOf sh H = []")
      case True
      with Some show ?thesis by (simp add: ensureSheet_eq)
    next
      case False
      with Some have e: "ensured h w SH_ITEMS H = grownSheet sh H" by (simp add: ensured_def)
      have "{r. 2 \<le> r \<and> inBatch (grownSheet sh H) b r} = {r. 2 \<le> r \<and> inBatch sh b r}"
        using inBatch_grown[OF _ assms, of _ sh H] by auto
      then have "card {r. 2 \<le> r \<and> inBatch (grownSheet sh H) b r} =
          card {r. 2 \<le> r \<and> inBatch sh b r}"
        by (simp only:)
      with Some show ?thesis unfolding after e by (simp add: itemsOfBatch_alt[OF assms])
    qed
  qed
qed

subsection \<open>The code of a new item\<close>

lemma codeText_1_2: "codeText 1 = ''I001''" "codeText 2 = ''I002''"
  by (simp_all add: codeText_def digitChar_def)

lemma nextCodeForBatch_codeText: "nextCodeForBatch w b = codeText (itemsOfBatch w b + 1)"
  unfolding codeText_def by (rule nextCodeForBatch_count)

lemma unique_fresh:
  assumes "distinct H"
  shows "batchColumnUnique (freshSheet h H)"
  unfolding batchColumnUnique_def
proof (intro allI impI)
  fix c d
  assume a: "toStr (cval (cellAt (freshSheet h H) (1, c))) = ''BatchID'' \<and>
      toStr (cval (cellAt (freshSheet h H) (1, d))) = ''BatchID''"
  have pos: "1 \<le> x \<and> x \<le> length H \<and> H ! (x - 1) = ''BatchID''"
    if "toStr (cval (cellAt (freshSheet h H) (1, x))) = ''BatchID''" for x
    using that by (auto simp: cellAt_freshSheet cval_textCell toStr_blank split: if_splits)
  from pos[of c] pos[of d] a have c: "1 \<le> c" "c - 1 < length H" "H ! (c - 1) = ''BatchID''"
    and d: "1 \<le> d" "d - 1 < length H" "H ! (d - 1) = ''BatchID''"
    by auto
  from c(3) d(3) have "H ! (c - 1) = H ! (d - 1)" by simp
  with assms c(2) d(2) have "c - 1 = d - 1" by (simp add: nth_eq_iff_index_eq)
  with c(1) d(1) show "c = d" by simp
qed

lemma unique_grown:
  assumes "batchColumnUnique sh" and "distinct H"
  shows "batchColumnUnique (grownSheet sh H)"
  unfolding batchColumnUnique_def
proof (intro allI impI)
  let ?g = "grownSheet sh H"
  let ?k = "length (getHeaders sh)"
  let ?m = "missingOf sh H"
  fix c d
  assume a: "toStr (cval (cellAt ?g (1, c))) = ''BatchID'' \<and>
      toStr (cval (cellAt ?g (1, d))) = ''BatchID''"
  have dm: "distinct ?m" using assms(2) by (simp add: missingOf_def)
  have new: "x - ?k - 1 < length ?m \<and> ?m ! (x - ?k - 1) = ''BatchID''"
    if "toStr (cval (cellAt ?g (1, x))) = ''BatchID''" "?k < x \<and> x \<le> ?k + length ?m" for x
  proof -
    from that(2) have "cellAt ?g (1, x) = textCell (?m ! (x - ?k - 1))"
      by (simp add: cellAt_grownSheet)
    with that(1) have "?m ! (x - ?k - 1) = ''BatchID''" by (simp add: cval_textCell)
    moreover from that(2) have "x - ?k - 1 < length ?m" by auto
    ultimately show ?thesis by simp
  qed
  have old: "toStr (cval (cellAt sh (1, x))) = ''BatchID''"
    if "toStr (cval (cellAt ?g (1, x))) = ''BatchID''" "\<not> (?k < x \<and> x \<le> ?k + length ?m)" for x
  proof -
    from that(2) have "cellAt ?g (1, x) = cellAt sh (1, x)" by (auto simp: cellAt_grownSheet)
    with that(1) show ?thesis by simp
  qed
  have mixed: False
    if "toStr (cval (cellAt sh (1, x))) = ''BatchID''" "y < length ?m" "?m ! y = ''BatchID''" for x y
  proof -
    from titled_column[OF that(1)] have "x - 1 < ?k" "getHeaders sh ! (x - 1) = cval (cellAt sh (1, x))"
      by auto
    moreover from that(1) have "cval (cellAt sh (1, x)) = Str ''BatchID''" by (rule toStr_BatchID)
    ultimately have "Str ''BatchID'' \<in> set (getHeaders sh)" by (metis nth_mem)
    moreover from that(2) have "?m ! y \<in> set ?m" by (rule nth_mem)
    then have "Str (?m ! y) \<notin> set (getHeaders sh)" by (simp add: missingOf_def)
    ultimately show False using that(3) by simp
  qed
  show "c = d"
  proof (cases "?k < c \<and> c \<le> ?k + length ?m")
    case cn: True
    show ?thesis
    proof (cases "?k < d \<and> d \<le> ?k + length ?m")
      case True
      from new[OF _ cn] new[OF _ True] a
      have "c - ?k - 1 < length ?m" "d - ?k - 1 < length ?m" "?m ! (c - ?k - 1) = ?m ! (d - ?k - 1)"
        by simp_all
      with dm have "c - ?k - 1 = d - ?k - 1" by (simp add: nth_eq_iff_index_eq)
      with cn True show ?thesis by auto
    next
      case False
      from old[OF _ False] new[OF _ cn] a mixed show ?thesis by blast
    qed
  next
    case co: False
    show ?thesis
    proof (cases "?k < d \<and> d \<le> ?k + length ?m")
      case True
      from old[OF _ co] new[OF _ True] a mixed show ?thesis by blast
    next
      case False
      from old[OF _ co] old[OF _ False] a assms(1) show ?thesis
        unfolding batchColumnUnique_def by blast
    qed
  qed
qed

lemma unique_ensured:
  assumes "oneBatchColumn w" and "distinct H"
  shows "batchColumnUnique (ensured h w SH_ITEMS H)"
proof (cases "sheets w SH_ITEMS")
  case None
  then show ?thesis using assms(2) by (simp add: ensured_def unique_fresh)
next
  case (Some sh)
  with assms(1) have "batchColumnUnique sh" by (simp add: oneBatchColumn_def)
  with Some assms(2) show ?thesis by (simp add: ensured_def unique_grown)
qed

lemma inBatch_written:
  assumes "2 \<le> r" and "batchColumnUnique E"
    and "indexOf (getHeaders E) (Str ''BatchID'') = Some iB"
    and "distinct (map fst obj)" and "(''BatchID'', b) \<in> set obj"
  shows "inBatch (writeRecord E (getHeaders E) r obj) b r' \<longleftrightarrow> r' = r \<or> inBatch E b r'"
proof -
  let ?S = "writeRecord E (getHeaders E) r obj"
  have r1: "1 \<le> r" using assms(1) by simp
  have row1: "cellAt ?S (1, c) = cellAt E (1, c)" for c
    using assms(1) by (rule writeRecord_row1)
  have other: "cellAt ?S (r', c) = cellAt E (r', c)" if "r' \<noteq> r" for c
    using r1 that by (rule writeRecord_other_rows)
  have hit: "cellAt ?S (r, Suc iB) = textCell b"
    using r1 assms(4,5,3) by (rule writeRecord_hit)
  from indexOf_SomeD[OF assms(3)] have "iB < length (getHeaders E)" "getHeaders E ! iB = Str ''BatchID''"
    by simp_all
  then have tB: "toStr (cval (cellAt E (1, Suc iB))) = ''BatchID''"
    by (simp add: getHeaders_nth)
  have only: "c = Suc iB" if "toStr (cval (cellAt E (1, c))) = ''BatchID''" for c
    using assms(2) that tB unfolding batchColumnUnique_def by blast
  have lastB: "\<forall>d. Suc iB < d \<longrightarrow> toStr (cval (cellAt E (1, d))) \<noteq> ''BatchID''"
    using only by fastforce
  have S_iff: "inBatch ?S b x \<longleftrightarrow> cval (cellAt ?S (x, Suc iB)) = Str b" for x
  proof
    assume "inBatch ?S b x"
    then obtain c where c: "toStr (cval (cellAt ?S (1, c))) = ''BatchID''" "cval (cellAt ?S (x, c)) = Str b"
      unfolding inBatch_def by blast
    from c(1) have "toStr (cval (cellAt E (1, c))) = ''BatchID''" unfolding row1 .
    then have "c = Suc iB" by (rule only)
    with c(2) show "cval (cellAt ?S (x, Suc iB)) = Str b" by simp
  next
    assume "cval (cellAt ?S (x, Suc iB)) = Str b"
    with tB lastB show "inBatch ?S b x" unfolding inBatch_def row1 by blast
  qed
  have E_iff: "inBatch E b x \<longleftrightarrow> cval (cellAt E (x, Suc iB)) = Str b" for x
  proof
    assume "inBatch E b x"
    then obtain c where c: "toStr (cval (cellAt E (1, c))) = ''BatchID''" "cval (cellAt E (x, c)) = Str b"
      unfolding inBatch_def by blast
    from c(1) have "c = Suc iB" by (rule only)
    with c(2) show "cval (cellAt E (x, Suc iB)) = Str b" by simp
  next
    assume "cval (cellAt E (x, Suc iB)) = Str b"
    with tB lastB show "inBatch E b x" unfolding inBatch_def by blast
  qed
  show ?thesis
  proof (cases "r' = r")
    case True
    then show ?thesis by (simp add: S_iff hit cval_textCell)
  next
    case False
    then show ?thesis by (simp add: S_iff E_iff other)
  qed
qed

lemma itemsOfBatch_after:
  assumes "b \<noteq> []" and "2 \<le> r" and "batchColumnUnique E"
    and "Str ''BatchID'' \<in> set (getHeaders E)"
    and "distinct (map fst obj)" and "(''BatchID'', b) \<in> set obj"
    and "sheets wE SH_ITEMS = Some E" and "itemsOfBatch wE b = 0"
    and "sheets w1 SH_ITEMS = Some (writeRecord E (getHeaders E) r obj)"
  shows "itemsOfBatch w1 b = 1"
proof -
  from member_indexOf[OF assms(4)] obtain iB where
    iB: "indexOf (getHeaders E) (Str ''BatchID'') = Some iB" ..
  have "card {x. 2 \<le> x \<and> inBatch E b x} = 0"
    using assms(7,8) by (simp add: itemsOfBatch_alt[OF assms(1)])
  then have empty: "{x. 2 \<le> x \<and> inBatch E b x} = {}"
    using finite_inBatch[OF assms(1), of E] by simp
  have "{x. 2 \<le> x \<and> inBatch (writeRecord E (getHeaders E) r obj) b x} =
      {x. 2 \<le> x \<and> (x = r \<or> inBatch E b x)}"
    unfolding inBatch_written[OF assms(2,3) iB assms(5,6)] ..
  also have "\<dots> = {r}" using empty assms(2) by blast
  finally have "card {x. 2 \<le> x \<and> inBatch (writeRecord E (getHeaders E) r obj) b x} = 1"
    by simp
  with assms(9) show ?thesis by (simp add: itemsOfBatch_alt[OF assms(1)])
qed

lemma itemRow_nonempty_keys: "[] \<notin> fst ` set (itemRow wx itemId code t p)"
  by (simp add: itemRow_def)

lemma itemRow_code: "(''Code'', code) \<in> set (itemRow wx itemId code t p)"
  by (simp add: itemRow_def)

lemma HEADERS_ITEMS_members:
  "''Code'' \<in> set (HEADERS SH_ITEMS)" "''BatchID'' \<in> set (HEADERS SH_ITEMS)"
  by (simp_all add: HEADERS_ITEMS)

lemma saveItem_formula:
  assumes "p_batchId p = Some b" and "b \<noteq> []"
  shows "\<exists>w' itemId wx t r.
     saveItem h w p = Inr (w', itemId, codeText (itemsOfBatch w b + 1)) \<and> 2 \<le> r \<and>
     sheets w' SH_ITEMS =
       Some (writeRecord (ensured h w SH_ITEMS (HEADERS SH_ITEMS))
               (getHeaders (ensured h w SH_ITEMS (HEADERS SH_ITEMS))) r
               (itemRow wx itemId (codeText (itemsOfBatch w b + 1)) t p))"
proof -
  have b: "orEmpty (p_batchId p) = b" using assms(1) by (simp add: orEmpty_def)
  have c: "nextCodeForBatch (ensureSheet h w SH_ITEMS (HEADERS SH_ITEMS)) b =
      codeText (itemsOfBatch w b + 1)"
    by (simp only: nextCodeForBatch_codeText itemsOfBatch_ensure[OF assms(2)])
  have ne: "orEmpty (p_batchId p) \<noteq> []" using b assms(2) by simp
  from saveItem_trace[OF ne, of h w] obtain r w' wx t itemId where
    "2 \<le> r" and
    "saveItem h w p =
       Inr (w', itemId,
            nextCodeForBatch (ensureSheet h w SH_ITEMS (HEADERS SH_ITEMS)) (orEmpty (p_batchId p)))" and
    "sheets w' SH_ITEMS =
       Some (writeRecord (ensured h w SH_ITEMS (HEADERS SH_ITEMS))
               (getHeaders (ensured h w SH_ITEMS (HEADERS SH_ITEMS))) r
               (itemRow wx itemId
                  (nextCodeForBatch (ensureSheet h w SH_ITEMS (HEADERS SH_ITEMS)) (orEmpty (p_batchId p)))
                  t p))"
    by (elim exE conjE)
  then show ?thesis unfolding b c by blast
qed

lemma itemRow_batch:
  "p_batchId p = Some b \<Longrightarrow> (''BatchID'', b) \<in> set (itemRow wx itemId code t p)"
  by (simp add: itemRow_def orEmpty_def)

text \<open>
  Claim C9, as the code has it. A call of \<open>saveItem\<close> for a batch identifier returns
  normally with a new item identifier and the display code, and the row it writes to the
  Items sheet holds the two under ItemID and Code. The code is the letter I followed by
  \<open>n\<close> = 1 + the number of existing Items rows whose BatchID equals the batch identifier,
  \<open>n\<close> written with three digits (with more when it is 1000 or more); the BatchID of a row
  is its value in the last column whose header reads BatchID, as \<open>getAll_\<close> reads it, and
  without an Items sheet the number is 0. So the first item of a batch without rows
  receives I001. When moreover the header row of the Items sheet reads BatchID in at most
  one column, the next item saved for the batch receives I002.
\<close>

theorem saveItem_code:
  assumes "p_batchId p = Some b" and "b \<noteq> []"
  shows "\<exists>w' itemId code sh r i m.
     saveItem h w p = Inr (w', itemId, code) \<and>
     code = codeText (itemsOfBatch w b + 1) \<and>
     sheets w' SH_ITEMS = Some sh \<and> 2 \<le> r \<and>
     indexOf (getHeaders sh) (Str ''ItemID'') = Some m \<and> cellAt sh (r, Suc m) = textCell itemId \<and>
     indexOf (getHeaders sh) (Str ''Code'') = Some i \<and> cellAt sh (r, Suc i) = textCell code \<and>
     (itemsOfBatch w b = 0 \<longrightarrow> code = ''I001'') \<and>
     (itemsOfBatch w b = 0 \<and> oneBatchColumn w \<longrightarrow>
        (\<forall>p2 :: payload. p_batchId p2 = Some b \<longrightarrow>
           (\<exists>w2 id2. saveItem h w' p2 = Inr (w2, id2, ''I002''))))"
proof -
  let ?H = "HEADERS SH_ITEMS"
  let ?E = "ensured h w SH_ITEMS ?H"
  let ?code = "codeText (itemsOfBatch w b + 1)"
  from saveItem_formula[OF assms, of h w] obtain w' itemId wx t r where
    res: "saveItem h w p = Inr (w', itemId, ?code)" and r: "2 \<le> r" and
    items: "sheets w' SH_ITEMS = Some (writeRecord ?E (getHeaders ?E) r (itemRow wx itemId ?code t p))"
    by (elim exE conjE)
  let ?obj = "itemRow wx itemId ?code t p"
  let ?S = "writeRecord ?E (getHeaders ?E) r ?obj"
  have r1: "1 \<le> r" using r by simp
  have hS: "getHeaders ?S = getHeaders ?E"
    using r itemRow_nonempty_keys by (rule writeRecord_headers_same)
  have "Str ''ItemID'' \<in> set (getHeaders ?E)"
    using HEADERS_ITEMS_props(8) by (rule ensured_member) simp
  from member_indexOf[OF this] obtain m where m: "indexOf (getHeaders ?E) (Str ''ItemID'') = Some m" ..
  have "Str ''Code'' \<in> set (getHeaders ?E)"
    using HEADERS_ITEMS_members(1) by (rule ensured_member) simp
  from member_indexOf[OF this] obtain i where i: "indexOf (getHeaders ?E) (Str ''Code'') = Some i" ..
  have mB: "Str ''BatchID'' \<in> set (getHeaders ?E)"
    using HEADERS_ITEMS_members(2) by (rule ensured_member) simp
  have cm: "cellAt ?S (r, Suc m) = textCell itemId"
    using r1 itemRow_keys(1) itemRow_keys(2) m by (rule writeRecord_hit)
  have ci: "cellAt ?S (r, Suc i) = textCell ?code"
    using r1 itemRow_keys(1) itemRow_code i by (rule writeRecord_hit)
  have mS: "indexOf (getHeaders ?S) (Str ''ItemID'') = Some m"
    and iS: "indexOf (getHeaders ?S) (Str ''Code'') = Some i"
    unfolding hS by (rule m, rule i)
  have first: "itemsOfBatch w b = 0 \<longrightarrow> ?code = ''I001''"
    using codeText_1_2(1) by simp
  have second: "itemsOfBatch w b = 0 \<and> oneBatchColumn w \<longrightarrow>
        (\<forall>p2 :: payload. p_batchId p2 = Some b \<longrightarrow>
           (\<exists>w2 id2. saveItem h w' p2 = Inr (w2, id2, ''I002'')))"
  proof (intro impI allI)
    fix p2 :: payload
    assume a: "itemsOfBatch w b = 0 \<and> oneBatchColumn w" and p2: "p_batchId p2 = Some b"
    from a have u: "batchColumnUnique ?E"
      using HEADERS_ITEMS_props(4) by (intro unique_ensured) simp_all
    have sE: "sheets (ensureSheet h w SH_ITEMS ?H) SH_ITEMS = Some ?E" by (rule ensureSheet_sheet)
    have zE: "itemsOfBatch (ensureSheet h w SH_ITEMS ?H) b = 0"
      using a by (simp add: itemsOfBatch_ensure[OF assms(2)])
    have one: "itemsOfBatch w' b = 1"
      using assms(2) r u mB itemRow_keys(1) itemRow_batch[OF assms(1)] sE zE items
      by (rule itemsOfBatch_after)
    from saveItem_formula[OF p2 assms(2), of h w'] obtain w2 id2 where
      "saveItem h w' p2 = Inr (w2, id2, codeText (itemsOfBatch w' b + 1))"
      by (elim exE conjE)
    then have "saveItem h w' p2 = Inr (w2, id2, ''I002'')"
      unfolding one using codeText_1_2(2) by (simp add: numeral_2_eq_2)
    then show "\<exists>w2 id2. saveItem h w' p2 = Inr (w2, id2, ''I002'')" by blast
  qed
  show ?thesis
    by (rule exI[of _ w'], rule exI[of _ itemId], rule exI[of _ ?code], rule exI[of _ ?S],
        rule exI[of _ r], rule exI[of _ i], rule exI[of _ m])
       (intro conjI res refl items r mS cm iS ci first second)
qed

text \<open>
  The document \<open>exStore\<close> has an Items sheet with one item of the batch B1 and one of B2,
  and none of B3.
\<close>

lemma exStore_items: "sheets exStore SH_ITEMS = Some exItems"
  by (simp add: exStore_def SH_ITEMS_def)

lemma exItems_titled:
  "toStr (cval (cellAt exItems (1, c))) = ''BatchID'' \<Longrightarrow> c = 2"
  by (auto simp: cellAt_def exItems_def inGrid_def blank_def textCell_def split: if_splits)

lemma exStore_oneBatchColumn: "oneBatchColumn exStore"
  unfolding oneBatchColumn_def batchColumnUnique_def exStore_items
  using exItems_titled by auto

lemma exStore_counts: "itemsOfBatch exStore ''B3'' = 0" "itemsOfBatch exStore ''B1'' = 1"
  unfolding itemsOfBatch_getAll[symmetric] by code_simp+

theorem saveItem_code_witness:
  "p_batchId (exPayload ''B3'' False []) = Some ''B3'' \<and> ''B3'' \<noteq> [] \<and>
   itemsOfBatch exStore ''B3'' = 0 \<and> oneBatchColumn exStore \<and>
   p_batchId (exPayload ''B3'' True [exSelection ''STRUCT_DAMAGED'' None]) = Some ''B3'' \<and>
   (\<exists>w' itemId.
      saveItem exHost exStore (exPayload ''B3'' False []) = Inr (w', itemId, ''I001'') \<and>
      (\<exists>w2 id2. saveItem exHost w' (exPayload ''B3'' True [exSelection ''STRUCT_DAMAGED'' None]) =
         Inr (w2, id2, ''I002'')))"
proof -
  let ?p = "exPayload ''B3'' False []"
  let ?p2 = "exPayload ''B3'' True [exSelection ''STRUCT_DAMAGED'' None]"
  have a: "p_batchId ?p = Some ''B3''" and b: "''B3'' \<noteq> []" and a2: "p_batchId ?p2 = Some ''B3''"
    by (simp_all add: exPayload_def)
  note z = exStore_counts(1) and u = exStore_oneBatchColumn
  from saveItem_code[OF a b, of exHost exStore] obtain w' itemId code where
    res: "saveItem exHost exStore ?p = Inr (w', itemId, code)" and
    first: "itemsOfBatch exStore ''B3'' = 0 \<longrightarrow> code = ''I001''" and
    second: "itemsOfBatch exStore ''B3'' = 0 \<and> oneBatchColumn exStore \<longrightarrow>
        (\<forall>p2 :: payload. p_batchId p2 = Some ''B3'' \<longrightarrow>
           (\<exists>w2 id2. saveItem exHost w' p2 = Inr (w2, id2, ''I002'')))"
    by (elim exE conjE)
  from first z have c: "code = ''I001''" by (rule mp)
  from second z u have "\<forall>p2 :: payload. p_batchId p2 = Some ''B3'' \<longrightarrow>
           (\<exists>w2 id2. saveItem exHost w' p2 = Inr (w2, id2, ''I002''))"
    by (intro mp[OF second] conjI)
  then have "p_batchId ?p2 = Some ''B3'' \<longrightarrow>
           (\<exists>w2 id2. saveItem exHost w' ?p2 = Inr (w2, id2, ''I002''))"
    by (rule spec)
  then have s: "\<exists>w2 id2. saveItem exHost w' ?p2 = Inr (w2, id2, ''I002'')"
    using a2 by (rule mp)
  from res c have r: "saveItem exHost exStore ?p = Inr (w', itemId, ''I001'')" by simp
  show ?thesis
    by (intro conjI a b z u a2, rule exI[of _ w'], rule exI[of _ itemId]) (intro conjI r s)
qed

text \<open>
  With a header row that reads BatchID in two columns the new row gets its batch
  identifier in the first of them, and \<open>getAll_\<close> reads the BatchID of a row from the
  last: the count of the batch stays as it was.
\<close>

lemma inBatch_written_dup:
  assumes "2 \<le> r" and "indexOf (getHeaders E) (Str ''BatchID'') = Some iB" and "Suc iB < c0"
    and "toStr (cval (cellAt E (1, c0))) = ''BatchID''"
  shows "inBatch (writeRecord E (getHeaders E) r obj) b r' \<longleftrightarrow> inBatch E b r'"
proof -
  let ?S = "writeRecord E (getHeaders E) r obj"
  have r1: "1 \<le> r" using assms(1) by simp
  have row1: "cellAt ?S (1, c) = cellAt E (1, c)" for c
    using assms(1) by (rule writeRecord_row1)
  have same: "cellAt ?S (r', c) = cellAt E (r', c)"
    if t: "toStr (cval (cellAt E (1, c))) = ''BatchID''"
      and l: "\<forall>d. c < d \<longrightarrow> toStr (cval (cellAt E (1, d))) \<noteq> ''BatchID''" for c
  proof (rule writeRecord_frame[OF r1])
    have ge: "c0 \<le> c"
    proof (rule ccontr)
      assume "\<not> c0 \<le> c"
      then have "c < c0" by simp
      with l assms(4) show False by blast
    qed
    show "\<not> (\<exists>h i. h \<in> fst ` set obj \<and> indexOf (getHeaders E) (Str h) = Some i \<and> (r', c) = (r, Suc i))"
    proof
      assume "\<exists>h i. h \<in> fst ` set obj \<and> indexOf (getHeaders E) (Str h) = Some i \<and> (r', c) = (r, Suc i)"
      then obtain h i where hi: "indexOf (getHeaders E) (Str h) = Some i" "c = Suc i" by auto
      from indexOf_SomeD[OF hi(1)] have "getHeaders E ! i = Str h" by simp
      moreover from titled_column[OF t] hi(2) have "getHeaders E ! i = cval (cellAt E (1, c))"
        by simp
      moreover from t have "cval (cellAt E (1, c)) = Str ''BatchID''" by (rule toStr_BatchID)
      ultimately have "h = ''BatchID''" by simp
      with hi(1) assms(2) have "i = iB" by simp
      with hi(2) ge assms(3) show False by simp
    qed
  qed
  show ?thesis
  proof
    assume "inBatch ?S b r'"
    then obtain c where c: "toStr (cval (cellAt E (1, c))) = ''BatchID''"
        "\<forall>d. c < d \<longrightarrow> toStr (cval (cellAt E (1, d))) \<noteq> ''BatchID''"
        "cval (cellAt ?S (r', c)) = Str b"
      unfolding inBatch_def row1 by blast
    from c(3) have "cval (cellAt E (r', c)) = Str b" unfolding same[OF c(1,2)] .
    with c(1,2) show "inBatch E b r'" unfolding inBatch_def by blast
  next
    assume "inBatch E b r'"
    then obtain c where c: "toStr (cval (cellAt E (1, c))) = ''BatchID''"
        "\<forall>d. c < d \<longrightarrow> toStr (cval (cellAt E (1, d))) \<noteq> ''BatchID''"
        "cval (cellAt E (r', c)) = Str b"
      unfolding inBatch_def by blast
    from c(3) have "cval (cellAt ?S (r', c)) = Str b" unfolding same[OF c(1,2)] .
    with c(1,2) show "inBatch ?S b r'" unfolding inBatch_def row1 by blast
  qed
qed

lemma saveItem_twice_dup:
  assumes "p_batchId p1 = Some b" and "p_batchId p2 = Some b" and "b \<noteq> []"
    and "itemsOfBatch w b = 0"
    and "indexOf (getHeaders (ensured h w SH_ITEMS (HEADERS SH_ITEMS))) (Str ''BatchID'') = Some iB"
    and "Suc iB < c0"
    and "toStr (cval (cellAt (ensured h w SH_ITEMS (HEADERS SH_ITEMS)) (1, c0))) = ''BatchID''"
  shows "\<exists>w1 id1 w2 id2. saveItem h w p1 = Inr (w1, id1, ''I001'') \<and>
     saveItem h w1 p2 = Inr (w2, id2, ''I001'')"
proof -
  let ?H = "HEADERS SH_ITEMS"
  let ?E = "ensured h w SH_ITEMS ?H"
  from saveItem_formula[OF assms(1,3), of h w] obtain w1 id1 wx t r where
    res: "saveItem h w p1 = Inr (w1, id1, codeText (itemsOfBatch w b + 1))" and r: "2 \<le> r" and
    items: "sheets w1 SH_ITEMS =
       Some (writeRecord ?E (getHeaders ?E) r (itemRow wx id1 (codeText (itemsOfBatch w b + 1)) t p1))"
    by (elim exE conjE)
  let ?S = "writeRecord ?E (getHeaders ?E) r (itemRow wx id1 (codeText (itemsOfBatch w b + 1)) t p1)"
  have "itemsOfBatch w1 b = card {x. 2 \<le> x \<and> inBatch ?S b x}"
    using items by (simp add: itemsOfBatch_alt[OF assms(3)])
  also have "\<dots> = card {x. 2 \<le> x \<and> inBatch ?E b x}"
    unfolding inBatch_written_dup[OF r assms(5,6,7)] ..
  also have "\<dots> = itemsOfBatch (ensureSheet h w SH_ITEMS ?H) b"
    by (simp add: itemsOfBatch_alt[OF assms(3)] ensureSheet_sheet)
  also have "\<dots> = 0" using assms(4) by (simp add: itemsOfBatch_ensure[OF assms(3)])
  finally have z1: "itemsOfBatch w1 b = 0" .
  from saveItem_formula[OF assms(2,3), of h w1] obtain w2 id2 where
    res2: "saveItem h w1 p2 = Inr (w2, id2, codeText (itemsOfBatch w1 b + 1))"
    by (elim exE conjE)
  have one: "codeText (0 + 1) = ''I001''" using codeText_1_2(1) by simp
  from res res2 show ?thesis unfolding assms(4) z1 one by blast
qed

lemma cxDup_facts:
  "itemsOfBatch cxDup ''B1'' = 0"
  "indexOf (getHeaders (ensured exHost cxDup SH_ITEMS (HEADERS SH_ITEMS))) (Str ''BatchID'') = Some 1"
  "toStr (cval (cellAt (ensured exHost cxDup SH_ITEMS (HEADERS SH_ITEMS)) (1, 3))) = ''BatchID''"
  unfolding itemsOfBatch_getAll[symmetric] by code_simp+

text \<open>
  The claim as stated fails for such a header row: the first two items of a batch without
  rows both receive I001.
\<close>

theorem saveItem_duplicate_header:
  "getHeaders cxDupItems = [Str ''ItemID'', Str ''BatchID'', Str ''BatchID''] \<and>
   getAll cxDup SH_ITEMS = [] \<and>
   (\<exists>w1 id1 w2 id2.
      saveItem exHost cxDup (exPayload ''B1'' False []) = Inr (w1, id1, ''I001'') \<and>
      saveItem exHost w1 (exPayload ''B1'' False []) = Inr (w2, id2, ''I001''))"
proof -
  have h: "getHeaders cxDupItems = [Str ''ItemID'', Str ''BatchID'', Str ''BatchID'']"
    by code_simp
  have g: "getAll cxDup SH_ITEMS = []" by code_simp
  have p: "p_batchId (exPayload ''B1'' False []) = Some ''B1''" by (simp add: exPayload_def)
  have "\<exists>w1 id1 w2 id2.
      saveItem exHost cxDup (exPayload ''B1'' False []) = Inr (w1, id1, ''I001'') \<and>
      saveItem exHost w1 (exPayload ''B1'' False []) = Inr (w2, id2, ''I001'')"
    by (rule saveItem_twice_dup[OF p p _ cxDup_facts(1,2) _ cxDup_facts(3)]) simp_all
  with h g show ?thesis by (intro conjI)
qed

end
